theory Spec2Isabelle
  imports Main "HOL-Library.Word" "HOL-Library.Sublist"
begin

unbundle bit_operations_syntax

section \<open>Data model\<close>

text \<open>
  The action flags of the replay engine (\<^verbatim>\<open>rd.ActionFlags\<close>) are an enumeration of the
  imported \<^verbatim>\<open>renderdoc\<close> module, which is no part of the repository. The functions below
  take the table of its values as a parameter: one 32-bit mask for each name that the
  code mentions.
\<close>

record ActionFlags =
  Drawcall :: "32 word"
  Dispatch :: "32 word"
  Clear :: "32 word"
  PushMarker :: "32 word"
  PopMarker :: "32 word"
  SetMarker :: "32 word"
  Present :: "32 word"
  Copy :: "32 word"
  Resolve :: "32 word"
  GenMips :: "32 word"
  PassBoundary :: "32 word"
  Indexed :: "32 word"
  Instanced :: "32 word"
  Auto :: "32 word"
  Indirect :: "32 word"
  ClearColor :: "32 word"
  ClearDepthStencil :: "32 word"
  BeginPass :: "32 word"
  EndPass :: "32 word"

text \<open>
  Modelled from the spec: the values of \<^verbatim>\<open>rd.ActionFlags\<close>, which the repository imports
  and does not define. The spec says that each category is one bit of a fixed-width mask;
  the bits chosen here are those of the engine's public enumeration. They are used for
  concrete inputs only; every general theorem is about an arbitrary table.
\<close>

definition rd_flags :: ActionFlags where
  "rd_flags = \<lparr> Drawcall = 0x0002, Dispatch = 0x0004, Clear = 0x0001,
      PushMarker = 0x0040, PopMarker = 0x0080, SetMarker = 0x0020,
      Present = 0x0100, Copy = 0x0400, Resolve = 0x0800, GenMips = 0x1000,
      PassBoundary = 0x2000, Indexed = 0x010000, Instanced = 0x020000,
      Auto = 0x040000, Indirect = 0x080000, ClearColor = 0x100000,
      ClearDepthStencil = 0x200000, BeginPass = 0x400000, EndPass = 0x800000 \<rparr>"

text \<open>
  One recorded action. \<open>name\<close> is what \<^verbatim>\<open>action.GetName(structured_file)\<close> returns for
  the node; the other fields are the attributes that the code reads.
\<close>

datatype action = Action
  (eventId: int) (actionId: int) (name: string) (flags: "32 word")
  (numIndices: int) (numInstances: int) (children: "action list")

text \<open>
  One serialized action: the dictionary built at the end of the loop body of
  \<^verbatim>\<open>serialize_actions\<close>. The key \<^verbatim>\<open>children\<close> is set only for a non-empty list, so the
  field is optional: \<open>None\<close> is the absent key.
\<close>

datatype item = Item
  (event_id: int) (action_id: int) (item_name: string) (item_flags: "string list")
  (num_indices: int) (num_instances: int) (item_children: "item list option")

text \<open>The arguments of \<^verbatim>\<open>serialize_actions\<close> that stay the same in every recursive call.\<close>

record config =
  include_children :: bool
  marker_filter :: "string option"
  exclude_markers :: "string list option"
  event_id_min :: "int option"
  event_id_max :: "int option"
  only_actions :: bool
  flags_filter :: "string list option"

section \<open>Serializers.serialize_flags\<close>

definition flag_map :: "ActionFlags \<Rightarrow> (32 word \<times> string) list" where
  "flag_map rd =
    [(Drawcall rd, ''Drawcall''),
     (Dispatch rd, ''Dispatch''),
     (Clear rd, ''Clear''),
     (PushMarker rd, ''PushMarker''),
     (PopMarker rd, ''PopMarker''),
     (SetMarker rd, ''SetMarker''),
     (Present rd, ''Present''),
     (Copy rd, ''Copy''),
     (Resolve rd, ''Resolve''),
     (GenMips rd, ''GenMips''),
     (PassBoundary rd, ''PassBoundary''),
     (Indexed rd, ''Indexed''),
     (Instanced rd, ''Instanced''),
     (Auto rd, ''Auto''),
     (Indirect rd, ''Indirect''),
     (ClearColor rd, ''ClearColor''),
     (ClearDepthStencil rd, ''ClearDepthStencil''),
     (BeginPass rd, ''BeginPass''),
     (EndPass rd, ''EndPass'')]"

text \<open>The loop over \<open>flag_map\<close>: \<open>flag_names\<close> is the list built so far.\<close>

fun flags_loop :: "32 word \<Rightarrow> (32 word \<times> string) list \<Rightarrow> string list \<Rightarrow> string list" where
  "flags_loop fl [] flag_names = flag_names"
| "flags_loop fl ((flag, nm) # rest) flag_names =
     flags_loop fl rest (if fl AND flag \<noteq> 0 then flag_names @ [nm] else flag_names)"

definition serialize_flags :: "ActionFlags \<Rightarrow> 32 word \<Rightarrow> string list" where
  "serialize_flags rd fl = flags_loop fl (flag_map rd) []"

section \<open>Serializers.serialize_actions\<close>

text \<open>Python's truth value of an optional string and of an optional list.\<close>

definition truthy :: "'a list option \<Rightarrow> bool" where
  "truthy v = (case v of None \<Rightarrow> False | Some xs \<Rightarrow> xs \<noteq> [])"

text \<open>The local variables of the loop body, as functions of the action.\<close>

definition is_push_marker :: "ActionFlags \<Rightarrow> action \<Rightarrow> bool" where
  "is_push_marker rd a = (flags a AND PushMarker rd \<noteq> 0)"

definition is_set_marker :: "ActionFlags \<Rightarrow> action \<Rightarrow> bool" where
  "is_set_marker rd a = (flags a AND SetMarker rd \<noteq> 0)"

definition is_pop_marker :: "ActionFlags \<Rightarrow> action \<Rightarrow> bool" where
  "is_pop_marker rd a = (flags a AND PopMarker rd \<noteq> 0)"

definition is_marker :: "ActionFlags \<Rightarrow> action \<Rightarrow> bool" where
  "is_marker rd a = (is_push_marker rd a \<or> is_set_marker rd a \<or> is_pop_marker rd a)"

text \<open>Step 1: \<^verbatim>\<open>exclude_markers and is_marker\<close> and some listed string occurs in the name.\<close>

definition excluded :: "ActionFlags \<Rightarrow> config \<Rightarrow> action \<Rightarrow> bool" where
  "excluded rd cfg a =
     (case exclude_markers cfg of
        None \<Rightarrow> False
      | Some exs \<Rightarrow> exs \<noteq> [] \<and> is_marker rd a \<and> list_ex (\<lambda>ex. sublist ex (name a)) exs)"

text \<open>Step 2: \<open>in_matching\<close>, from the inherited \<^verbatim>\<open>_in_matching_marker\<close>.\<close>

definition in_matching :: "ActionFlags \<Rightarrow> config \<Rightarrow> bool \<Rightarrow> action \<Rightarrow> bool" where
  "in_matching rd cfg in_matching_marker a =
     (case marker_filter cfg of
        None \<Rightarrow> in_matching_marker
      | Some mf \<Rightarrow>
          if mf \<noteq> [] \<and> is_push_marker rd a \<and> sublist mf (name a) then True
          else in_matching_marker)"

text \<open>Step 3: the range of event ids, tested for an action that is no marker.\<close>

definition in_range :: "ActionFlags \<Rightarrow> config \<Rightarrow> action \<Rightarrow> bool" where
  "in_range rd cfg a =
     (if is_marker rd a then True
      else (case event_id_min cfg of None \<Rightarrow> True | Some lo \<Rightarrow> \<not> eventId a < lo)
         \<and> (case event_id_max cfg of None \<Rightarrow> True | Some hi \<Rightarrow> \<not> eventId a > hi))"

text \<open>
  Step 5: true when the loop body goes on after the \<^verbatim>\<open>flags_filter\<close> check, false when it
  runs \<^verbatim>\<open>continue\<close> there.
\<close>

definition passes_flags_filter :: "ActionFlags \<Rightarrow> config \<Rightarrow> action \<Rightarrow> bool" where
  "passes_flags_filter rd cfg a =
     (case flags_filter cfg of
        None \<Rightarrow> True
      | Some ff \<Rightarrow>
          if ff \<noteq> [] \<and> \<not> is_marker rd a
          then list_ex (\<lambda>f. f \<in> set ff) (serialize_flags rd (flags a))
          else True)"

text \<open>Step 6.\<close>

definition passes_marker_filter :: "config \<Rightarrow> bool \<Rightarrow> bool" where
  "passes_marker_filter cfg in_m = (\<not> truthy (marker_filter cfg) \<or> in_m)"

text \<open>The dictionary of an included action.\<close>

definition make_item :: "ActionFlags \<Rightarrow> action \<Rightarrow> item list \<Rightarrow> item" where
  "make_item rd a children_result =
     Item (eventId a) (actionId a) (name a) (serialize_flags rd (flags a))
       (numIndices a) (numInstances a)
       (if children_result \<noteq> [] then Some children_result else None)"

text \<open>
  \<open>serialize_actions\<close> is the loop over \<open>actions\<close>; \<open>serialize_action\<close> is one run of its
  body, returning what that run adds to \<open>serialized\<close>. The Boolean argument is
  \<^verbatim>\<open>_in_matching_marker\<close>.
\<close>

fun serialize_actions :: "ActionFlags \<Rightarrow> config \<Rightarrow> bool \<Rightarrow> action list \<Rightarrow> item list"
and serialize_action :: "ActionFlags \<Rightarrow> config \<Rightarrow> bool \<Rightarrow> action \<Rightarrow> item list"
where
  "serialize_actions rd cfg in_m [] = []"
| "serialize_actions rd cfg in_m (a # actions) =
     serialize_action rd cfg in_m a @ serialize_actions rd cfg in_m actions"
| "serialize_action rd cfg in_m (Action eid aid nm fl ni nin cs) =
     (let a = Action eid aid nm fl ni nin cs in
      if excluded rd cfg a then []
      else if only_actions cfg \<and> is_marker rd a then
        (if include_children cfg \<and> cs \<noteq> []
         then serialize_actions rd cfg (in_matching rd cfg in_m a) cs
         else [])
      else if \<not> passes_flags_filter rd cfg a then []
      else
        let children_result =
              (if include_children cfg \<and> cs \<noteq> []
               then serialize_actions rd cfg (in_matching rd cfg in_m a) cs
               else []);
            has_passing_children = (children_result \<noteq> []);
            should_include =
              (if is_marker rd a
               then has_passing_children \<and> passes_marker_filter cfg (in_matching rd cfg in_m a)
               else in_range rd cfg a \<and> passes_marker_filter cfg (in_matching rd cfg in_m a))
        in if should_include then [make_item rd a children_result] else [])"

text \<open>
  The default arguments of \<^verbatim>\<open>ActionService.get_draw_calls\<close>: every filter unset, children
  included.
\<close>

definition default_config :: config where
  "default_config = \<lparr> include_children = True, marker_filter = None, exclude_markers = None,
      event_id_min = None, event_id_max = None, only_actions = False, flags_filter = None \<rparr>"

section \<open>Helpers.flatten_actions\<close>

text \<open>The pre-order list of all nodes of a forest; \<open>flatten_action\<close> is one run of the loop body.\<close>

fun flatten_actions :: "action list \<Rightarrow> action list"
and flatten_action :: "action \<Rightarrow> action list"
where
  "flatten_actions [] = []"
| "flatten_actions (a # actions) = flatten_action a @ flatten_actions actions"
| "flatten_action (Action eid aid nm fl ni nin cs) =
     Action eid aid nm fl ni nin cs # (if cs \<noteq> [] then flatten_actions cs else [])"

section \<open>Helpers.count_children and ActionService.get_frame_summary\<close>

text \<open>\<open>count_children_loop\<close> is the loop over \<^verbatim>\<open>action.children\<close>, with the running \<open>count\<close>.\<close>

fun count_children :: "action \<Rightarrow> int"
and count_children_loop :: "action list \<Rightarrow> int \<Rightarrow> int"
where
  "count_children (Action eid aid nm fl ni nin cs) =
     (if cs \<noteq> [] then count_children_loop cs 0 else 0)"
| "count_children_loop [] count = count"
| "count_children_loop (child # rest) count =
     count_children_loop rest (count + 1 + count_children child)"

text \<open>The counters that the nested function \<^verbatim>\<open>count_actions\<close> updates.\<close>

record stats =
  draw_calls :: int
  dispatches :: int
  clears :: int
  copies :: int
  presents :: int
  markers :: int

record counters =
  the_stats :: stats
  total :: int

definition count_flags :: "ActionFlags \<Rightarrow> 32 word \<Rightarrow> stats \<Rightarrow> stats" where
  "count_flags rd fl s0 =
     (let s1 = (if fl AND Drawcall rd \<noteq> 0 then s0\<lparr>draw_calls := draw_calls s0 + 1\<rparr> else s0);
          s2 = (if fl AND Dispatch rd \<noteq> 0 then s1\<lparr>dispatches := dispatches s1 + 1\<rparr> else s1);
          s3 = (if fl AND Clear rd \<noteq> 0 then s2\<lparr>clears := clears s2 + 1\<rparr> else s2);
          s4 = (if fl AND Copy rd \<noteq> 0 then s3\<lparr>copies := copies s3 + 1\<rparr> else s3);
          s5 = (if fl AND Present rd \<noteq> 0 then s4\<lparr>presents := presents s4 + 1\<rparr> else s4)
      in if fl AND (PushMarker rd OR SetMarker rd) \<noteq> 0
         then s5\<lparr>markers := markers s5 + 1\<rparr> else s5)"

fun count_actions :: "ActionFlags \<Rightarrow> action list \<Rightarrow> counters \<Rightarrow> counters"
and count_action :: "ActionFlags \<Rightarrow> action \<Rightarrow> counters \<Rightarrow> counters"
where
  "count_actions rd [] c = c"
| "count_actions rd (a # actions) c = count_actions rd actions (count_action rd a c)"
| "count_action rd (Action eid aid nm fl ni nin cs) c =
     (let c' = \<lparr> the_stats = count_flags rd fl (the_stats c), total = total c + 1 \<rparr>
      in if cs \<noteq> [] then count_actions rd cs c' else c')"

text \<open>
  What \<open>count_action\<close> does to the counters at one node, before it descends into the
  children.
\<close>

definition count_step :: "ActionFlags \<Rightarrow> counters \<Rightarrow> action \<Rightarrow> counters" where
  "count_step rd c a =
     \<lparr> the_stats = count_flags rd (flags a) (the_stats c), total = total c + 1 \<rparr>"

record top_marker =
  tm_name :: string
  tm_event_id :: int
  child_count :: int

fun top_markers :: "ActionFlags \<Rightarrow> action list \<Rightarrow> top_marker list" where
  "top_markers rd [] = []"
| "top_markers rd (a # actions) =
     (if flags a AND PushMarker rd \<noteq> 0
      then \<lparr> tm_name = name a, tm_event_id = eventId a, child_count = count_children a \<rparr>
             # top_markers rd actions
      else top_markers rd actions)"

text \<open>
  What the replay controller hands to the callback, and the summary built from it.
  The lists of textures and buffers are used for their lengths only.
\<close>

record controller =
  root_actions :: "action list"
  pipeline_type :: string
  n_textures :: nat
  n_buffers :: nat

record summary =
  api :: string
  total_actions :: int
  statistics :: stats
  top_level_markers :: "top_marker list"
  resource_textures :: nat
  resource_buffers :: nat

datatype error = ValueError string

definition get_frame_summary :: "ActionFlags \<Rightarrow> bool \<Rightarrow> controller \<Rightarrow> error + summary" where
  "get_frame_summary rd capture_loaded ctl =
     (if \<not> capture_loaded then Inl (ValueError ''No capture loaded'')
      else
        let c0 = \<lparr> the_stats = \<lparr> draw_calls = 0, dispatches = 0, clears = 0,
                                  copies = 0, presents = 0, markers = 0 \<rparr>, total = 0 \<rparr>;
            c = count_actions rd (root_actions ctl) c0
        in Inr \<lparr> api = pipeline_type ctl,
                 total_actions = total c,
                 statistics = the_stats c,
                 top_level_markers = top_markers rd (root_actions ctl),
                 resource_textures = n_textures ctl,
                 resource_buffers = n_buffers ctl \<rparr>)"

section \<open>Notions of the specification about the output\<close>

text \<open>
  A serialized node is a marker when its list of flag names holds one of the three marker
  names.
\<close>

definition item_is_marker :: "item \<Rightarrow> bool" where
  "item_is_marker it =
     (''PushMarker'' \<in> set (item_flags it) \<or> ''SetMarker'' \<in> set (item_flags it)
      \<or> ''PopMarker'' \<in> set (item_flags it))"

text \<open>All nodes of an output forest, at every depth, in pre-order.\<close>

fun all_items :: "item list \<Rightarrow> item list"
and item_nodes :: "item \<Rightarrow> item list"
where
  "all_items [] = []"
| "all_items (it # its) = item_nodes it @ all_items its"
| "item_nodes (Item e a n f ni nin cs) =
     Item e a n f ni nin cs # (case cs of None \<Rightarrow> [] | Some l \<Rightarrow> all_items l)"

text \<open>The event ids of the leaf actions (the nodes that are no markers) of an output.\<close>

definition leaf_event_ids :: "item list \<Rightarrow> int list" where
  "leaf_event_ids its = map event_id (filter (\<lambda>it. \<not> item_is_marker it) (all_items its))"

text \<open>
  Removing the marker wrappers of an output: a marker node is replaced by its children
  (themselves treated the same way), spliced in at its position.
\<close>

fun splice_markers :: "item list \<Rightarrow> item list"
and splice_item :: "item \<Rightarrow> item list"
where
  "splice_markers [] = []"
| "splice_markers (it # its) = splice_item it @ splice_markers its"
| "splice_item (Item e a n f ni nin cs) =
     (let sub = (case cs of None \<Rightarrow> [] | Some l \<Rightarrow> splice_markers l)
      in if item_is_marker (Item e a n f ni nin cs) then sub
         else [Item e a n f ni nin (if sub \<noteq> [] then Some sub else None)])"

text \<open>
  The projection of a forest with nothing dropped: the same shape, every node rendered
  with its own field values.
\<close>

fun project :: "ActionFlags \<Rightarrow> action \<Rightarrow> item" where
  "project rd (Action eid aid nm fl ni nin cs) =
     Item eid aid nm (serialize_flags rd fl) ni nin
       (if cs \<noteq> [] then Some (map (project rd) cs) else None)"

text \<open>
  The nodes that the traversal of \<open>serialize_actions\<close> can reach: the pre-order list of the
  forest without the subtrees of the markers that step 1 skips.
\<close>

fun kept_actions :: "ActionFlags \<Rightarrow> config \<Rightarrow> action list \<Rightarrow> action list"
and kept_action :: "ActionFlags \<Rightarrow> config \<Rightarrow> action \<Rightarrow> action list"
where
  "kept_actions rd cfg [] = []"
| "kept_actions rd cfg (a # actions) = kept_action rd cfg a @ kept_actions rd cfg actions"
| "kept_action rd cfg (Action eid aid nm fl ni nin cs) =
     (if excluded rd cfg (Action eid aid nm fl ni nin cs) then []
      else Action eid aid nm fl ni nin cs # kept_actions rd cfg cs)"

section \<open>Sample inputs\<close>

text \<open>
  The forest of the scenarios: a push marker named A that holds the draw with event id 1,
  followed by a root draw with event id 2.
\<close>

definition draw_1 :: action where
  "draw_1 = Action 1 1 ''Draw'' (Drawcall rd_flags) 3 1 []"

definition draw_2 :: action where
  "draw_2 = Action 2 2 ''Draw'' (Drawcall rd_flags) 3 1 []"

definition push_A :: action where
  "push_A = Action 0 0 ''A'' (PushMarker rd_flags) 0 0 [draw_1]"

definition scenario_forest :: "action list" where
  "scenario_forest = [push_A, draw_2]"

text \<open>
  The forest of the aggregator's scenario: one root push marker named Pass1 that holds two
  draws, and a controller that returns it.
\<close>

definition pass_1 :: action where
  "pass_1 = Action 10 0 ''Pass1'' (PushMarker rd_flags) 0 0
     [Action 11 1 ''Draw'' (Drawcall rd_flags OR Indexed rd_flags) 36 1 [],
      Action 12 2 ''Draw'' (Drawcall rd_flags) 3 1 []]"

definition sample_controller :: controller where
  "sample_controller =
     \<lparr> root_actions = [pass_1], pipeline_type = ''D3D11'', n_textures = 4, n_buffers = 7 \<rparr>"

text \<open>
  A set marker without children, and a forest in which the push marker A lies inside
  another push marker B.
\<close>

definition lone_label :: action where
  "lone_label = Action 7 7 ''Label'' (SetMarker rd_flags) 0 0 []"

definition nested_forest :: "action list" where
  "nested_forest =
     [Action 0 0 ''B'' (PushMarker rd_flags) 0 0
        [Action 1 1 ''A'' (PushMarker rd_flags) 0 0 [draw_2]]]"

text \<open>
  A push marker whose name contains Foo, holding a draw, followed by a root draw; and a
  draw whose own name contains Foo.
\<close>

definition foo_pass :: action where
  "foo_pass = Action 0 0 ''FooPass'' (PushMarker rd_flags) 0 0 [draw_1]"

definition foo_forest :: "action list" where
  "foo_forest = [foo_pass, draw_2]"

definition foo_draw :: action where
  "foo_draw = Action 5 5 ''DrawFoo'' (Drawcall rd_flags) 3 1 []"

text \<open>
  Root actions of several kinds and event ids, and configurations that set several
  filters at once.
\<close>

definition dispatch_3 :: action where
  "dispatch_3 = Action 3 3 ''Dispatch'' (Dispatch rd_flags) 0 0 []"

definition draw_5 :: action where
  "draw_5 = Action 5 5 ''Draw'' (Drawcall rd_flags OR Indexed rd_flags) 36 1 []"

definition draw_9 :: action where
  "draw_9 = Action 9 9 ''Draw'' (Drawcall rd_flags) 3 1 []"

definition mixed_roots :: "action list" where
  "mixed_roots = [push_A, draw_1, draw_2, dispatch_3, draw_5, draw_9]"

definition roots_config :: config where
  "roots_config = default_config\<lparr>include_children := False, event_id_min := Some 2,
      event_id_max := Some 6, flags_filter := Some [''Drawcall'']\<rparr>"

definition all_filters_config :: config where
  "all_filters_config = default_config\<lparr>marker_filter := Some ''A'',
      exclude_markers := Some [''Zzz''], event_id_min := Some 1, event_id_max := Some 1,
      flags_filter := Some [''Drawcall'']\<rparr>"

definition range_and_flags_config :: config where
  "range_and_flags_config =
     default_config\<lparr>event_id_min := Some 2, flags_filter := Some [''Drawcall'']\<rparr>"

section \<open>The flag codec\<close>

lemma flags_loop_filter:
  "flags_loop fl tbl acc = acc @ map snd (filter (\<lambda>(flag, nm). fl AND flag \<noteq> 0) tbl)"
  by (induction tbl arbitrary: acc) auto

lemma serialize_flags_filter:
  "serialize_flags rd fl = map snd (filter (\<lambda>(flag, nm). fl AND flag \<noteq> 0) (flag_map rd))"
  by (simp add: serialize_flags_def flags_loop_filter)

lemma or_and_unknown:
  fixes fl u flag :: "32 word"
  shows "u AND flag = 0 \<Longrightarrow> (fl OR u) AND flag = fl AND flag"
  by (simp add: bit.conj_disj_distrib2)

lemma filter_unknown:
  fixes fl u :: "32 word"
  shows "list_all (\<lambda>(flag, nm). u AND flag = 0) tbl \<Longrightarrow>
    filter (\<lambda>(flag, nm). (fl OR u) AND flag \<noteq> 0) tbl =
    filter (\<lambda>(flag, nm). fl AND flag \<noteq> 0) tbl"
  by (induction tbl) (auto simp: or_and_unknown)

text \<open>
  C8. The output of \<open>serialize_flags\<close> is the list of the table's names whose mask meets the
  bitmask, in the order of the table, so it is a function of the bitmask alone. Bits that
  meet no mask of the table change nothing. A bitmask that meets the masks of Drawcall,
  Indexed and Instanced and no other mask of the table gives exactly
  Drawcall, Indexed, Instanced, in this order.
\<close>

theorem serialize_flags_table_order:
  "serialize_flags rd fl = map snd (filter (\<lambda>(flag, nm). fl AND flag \<noteq> 0) (flag_map rd))
   \<and> (list_all (\<lambda>(flag, nm). u AND flag = 0) (flag_map rd) \<longrightarrow>
        serialize_flags rd (fl OR u) = serialize_flags rd fl)
   \<and> (fl AND Drawcall rd \<noteq> 0 \<and> fl AND Indexed rd \<noteq> 0 \<and> fl AND Instanced rd \<noteq> 0
       \<and> fl AND Dispatch rd = 0 \<and> fl AND Clear rd = 0 \<and> fl AND PushMarker rd = 0
       \<and> fl AND PopMarker rd = 0 \<and> fl AND SetMarker rd = 0 \<and> fl AND Present rd = 0
       \<and> fl AND Copy rd = 0 \<and> fl AND Resolve rd = 0 \<and> fl AND GenMips rd = 0
       \<and> fl AND PassBoundary rd = 0 \<and> fl AND Auto rd = 0 \<and> fl AND Indirect rd = 0
       \<and> fl AND ClearColor rd = 0 \<and> fl AND ClearDepthStencil rd = 0
       \<and> fl AND BeginPass rd = 0 \<and> fl AND EndPass rd = 0 \<longrightarrow>
       serialize_flags rd fl = [''Drawcall'', ''Indexed'', ''Instanced''])"
proof (intro conjI impI)
  show "serialize_flags rd fl = map snd (filter (\<lambda>(flag, nm). fl AND flag \<noteq> 0) (flag_map rd))"
    by (rule serialize_flags_filter)
next
  assume "list_all (\<lambda>(flag, nm). u AND flag = 0) (flag_map rd)"
  then show "serialize_flags rd (fl OR u) = serialize_flags rd fl"
    by (simp only: serialize_flags_filter filter_unknown)
next
  assume "fl AND Drawcall rd \<noteq> 0 \<and> fl AND Indexed rd \<noteq> 0 \<and> fl AND Instanced rd \<noteq> 0
       \<and> fl AND Dispatch rd = 0 \<and> fl AND Clear rd = 0 \<and> fl AND PushMarker rd = 0
       \<and> fl AND PopMarker rd = 0 \<and> fl AND SetMarker rd = 0 \<and> fl AND Present rd = 0
       \<and> fl AND Copy rd = 0 \<and> fl AND Resolve rd = 0 \<and> fl AND GenMips rd = 0
       \<and> fl AND PassBoundary rd = 0 \<and> fl AND Auto rd = 0 \<and> fl AND Indirect rd = 0
       \<and> fl AND ClearColor rd = 0 \<and> fl AND ClearDepthStencil rd = 0
       \<and> fl AND BeginPass rd = 0 \<and> fl AND EndPass rd = 0"
  then show "serialize_flags rd fl = [''Drawcall'', ''Indexed'', ''Instanced'']"
    by (simp add: serialize_flags_def flag_map_def)
qed

text \<open>
  The bitmask built as Instanced, then Drawcall, then Indexed, with one more bit that the
  table does not know.
\<close>

theorem serialize_flags_table_order_witness:
  "list_all (\<lambda>(flag, nm). (0x10 :: 32 word) AND flag = 0) (flag_map rd_flags)
   \<and> serialize_flags rd_flags ((Instanced rd_flags OR Drawcall rd_flags OR Indexed rd_flags) OR 0x10)
       = serialize_flags rd_flags (Instanced rd_flags OR Drawcall rd_flags OR Indexed rd_flags)
   \<and> serialize_flags rd_flags (Instanced rd_flags OR Drawcall rd_flags OR Indexed rd_flags)
       = [''Drawcall'', ''Indexed'', ''Instanced'']"
proof -
  have unknown: "list_all (\<lambda>(flag, nm). (0x10 :: 32 word) AND flag = 0) (flag_map rd_flags)"
    by (simp add: flag_map_def rd_flags_def)
  have bits: "Instanced rd_flags OR Drawcall rd_flags OR Indexed rd_flags = (0x30002 :: 32 word)"
    by (simp add: rd_flags_def)
  have tests: "(0x30002 :: 32 word) AND Drawcall rd_flags \<noteq> 0
       \<and> (0x30002 :: 32 word) AND Indexed rd_flags \<noteq> 0
       \<and> (0x30002 :: 32 word) AND Instanced rd_flags \<noteq> 0
       \<and> (0x30002 :: 32 word) AND Dispatch rd_flags = 0
       \<and> (0x30002 :: 32 word) AND Clear rd_flags = 0
       \<and> (0x30002 :: 32 word) AND PushMarker rd_flags = 0
       \<and> (0x30002 :: 32 word) AND PopMarker rd_flags = 0
       \<and> (0x30002 :: 32 word) AND SetMarker rd_flags = 0
       \<and> (0x30002 :: 32 word) AND Present rd_flags = 0
       \<and> (0x30002 :: 32 word) AND Copy rd_flags = 0
       \<and> (0x30002 :: 32 word) AND Resolve rd_flags = 0
       \<and> (0x30002 :: 32 word) AND GenMips rd_flags = 0
       \<and> (0x30002 :: 32 word) AND PassBoundary rd_flags = 0
       \<and> (0x30002 :: 32 word) AND Auto rd_flags = 0
       \<and> (0x30002 :: 32 word) AND Indirect rd_flags = 0
       \<and> (0x30002 :: 32 word) AND ClearColor rd_flags = 0
       \<and> (0x30002 :: 32 word) AND ClearDepthStencil rd_flags = 0
       \<and> (0x30002 :: 32 word) AND BeginPass rd_flags = 0
       \<and> (0x30002 :: 32 word) AND EndPass rd_flags = 0"
    by (simp add: rd_flags_def)
  from serialize_flags_table_order [of rd_flags "0x30002" "0x10"] unknown tests
  have "serialize_flags rd_flags (0x30002 OR 0x10) = serialize_flags rd_flags 0x30002"
    and "serialize_flags rd_flags 0x30002 = [''Drawcall'', ''Indexed'', ''Instanced'']"
    by blast+
  with unknown bits show ?thesis by simp
qed

lemma in_filtered_names:
  "nm \<in> set (map snd (filter P tbl)) \<longleftrightarrow> (\<exists>flag. (flag, nm) \<in> set tbl \<and> P (flag, nm))"
  by (induction tbl) auto

lemma in_flag_map:
  "(flag, ''PushMarker'') \<in> set (flag_map rd) \<longleftrightarrow> flag = PushMarker rd"
  "(flag, ''SetMarker'') \<in> set (flag_map rd) \<longleftrightarrow> flag = SetMarker rd"
  "(flag, ''PopMarker'') \<in> set (flag_map rd) \<longleftrightarrow> flag = PopMarker rd"
  by (simp_all add: flag_map_def)

lemma marker_names_in_flags:
  "''PushMarker'' \<in> set (serialize_flags rd fl) \<longleftrightarrow> fl AND PushMarker rd \<noteq> 0"
  "''SetMarker'' \<in> set (serialize_flags rd fl) \<longleftrightarrow> fl AND SetMarker rd \<noteq> 0"
  "''PopMarker'' \<in> set (serialize_flags rd fl) \<longleftrightarrow> fl AND PopMarker rd \<noteq> 0"
  by (simp_all only: serialize_flags_filter in_filtered_names in_flag_map) simp_all

section \<open>The loop body of serialize_actions\<close>

lemma serialize_actions_concat:
  "serialize_actions rd cfg in_m actions = concat (map (serialize_action rd cfg in_m) actions)"
  by (induction actions) simp_all

text \<open>
  One run of the loop body, with the local variables replaced by their definitions. The
  recursive call on an empty list of children returns the empty list, so the test
  \<^verbatim>\<open>action.children\<close> before the call needs no case of its own.
\<close>

lemma serialize_action_eq:
  "serialize_action rd cfg in_m a =
     (if excluded rd cfg a then []
      else if only_actions cfg \<and> is_marker rd a then
        (if include_children cfg
         then serialize_actions rd cfg (in_matching rd cfg in_m a) (children a) else [])
      else if \<not> passes_flags_filter rd cfg a then []
      else if is_marker rd a then
        (if include_children cfg
            \<and> serialize_actions rd cfg (in_matching rd cfg in_m a) (children a) \<noteq> []
            \<and> passes_marker_filter cfg (in_matching rd cfg in_m a)
         then [make_item rd a (serialize_actions rd cfg (in_matching rd cfg in_m a) (children a))]
         else [])
      else
        (if in_range rd cfg a \<and> passes_marker_filter cfg (in_matching rd cfg in_m a)
         then [make_item rd a (if include_children cfg
                 then serialize_actions rd cfg (in_matching rd cfg in_m a) (children a) else [])]
         else []))"
  by (cases a) (auto simp: Let_def)

text \<open>
  Induction over a forest and its nodes together: a property of a node may use the
  property of its list of children.
\<close>

lemma forest_induct [case_names Nil Cons Node]:
  assumes "P []"
    and "\<And>a actions. Q a \<Longrightarrow> P actions \<Longrightarrow> P (a # actions)"
    and "\<And>a. P (children a) \<Longrightarrow> Q a"
  shows "P actions" and "Q a"
proof -
  have nodes: "Q a" for a
  proof (induction a)
    case (Action eid aid nm fl ni nin cs)
    then have "P cs"
    proof (induction cs)
      case Nil
      show ?case by (rule assms(1))
    next
      case (Cons c cs)
      then show ?case by (simp add: assms(2))
    qed
    then show ?case using assms(3) [of "Action eid aid nm fl ni nin cs"] by simp
  qed
  show "Q a" by (rule nodes)
  show "P actions" by (induction actions) (simp_all add: assms(1) assms(2) nodes)
qed

text \<open>The same with the inherited flag, which changes from a node to its children.\<close>

lemma ser_induct [case_names Nil Cons Node]:
  assumes "\<And>in_m. P in_m []"
    and "\<And>in_m a actions. Q in_m a \<Longrightarrow> P in_m actions \<Longrightarrow> P in_m (a # actions)"
    and "\<And>in_m a. (\<And>m. P m (children a)) \<Longrightarrow> Q in_m a"
  shows "P in_m actions" and "Q in_m a"
proof -
  have "\<forall>m. P m actions" and "\<forall>m. Q m a"
  proof (induction actions and a rule: forest_induct)
    case Nil
    show ?case by (simp add: assms(1))
  next
    case (Cons a actions)
    then show ?case by (simp add: assms(2))
  next
    case (Node a)
    then show ?case by (simp add: assms(3))
  qed
  then show "P in_m actions" and "Q in_m a" by simp_all
qed

lemma item_is_marker_make_item [simp]:
  "item_is_marker (make_item rd a cr) = is_marker rd a"
  by (simp add: item_is_marker_def make_item_def marker_names_in_flags is_marker_def
      is_push_marker_def is_set_marker_def is_pop_marker_def)

lemma in_matching_leaf: "\<not> is_marker rd a \<Longrightarrow> in_matching rd cfg in_m a = in_m"
  by (auto simp: in_matching_def is_marker_def split: option.splits)

lemma in_matching_latch: "in_matching rd cfg True a"
  by (simp add: in_matching_def split: option.splits)

lemma excluded_is_marker: "excluded rd cfg a \<Longrightarrow> is_marker rd a"
  by (simp add: excluded_def split: option.splits)

lemma all_items_append [simp]: "all_items (xs @ ys) = all_items xs @ all_items ys"
  by (induction xs) simp_all

lemma item_nodes_make_item [simp]:
  "item_nodes (make_item rd a cr) = make_item rd a cr # all_items cr"
  by (simp add: make_item_def)

lemma item_children_make_item:
  "item_children (make_item rd a cr) = (if cr \<noteq> [] then Some cr else None)"
  by (simp add: make_item_def)

text \<open>The tests of the loop body, written out over the fields of the configuration.\<close>

lemma in_range_explicit:
  "\<not> is_marker rd a \<Longrightarrow> in_range rd cfg a =
     ((case event_id_min cfg of None \<Rightarrow> True | Some lo \<Rightarrow> lo \<le> eventId a)
      \<and> (case event_id_max cfg of None \<Rightarrow> True | Some hi \<Rightarrow> eventId a \<le> hi))"
  by (auto simp: in_range_def split: option.splits)

lemma passes_flags_filter_explicit:
  "\<not> is_marker rd a \<Longrightarrow> passes_flags_filter rd cfg a =
     (case flags_filter cfg of None \<Rightarrow> True
      | Some ff \<Rightarrow> ff = [] \<or> set (serialize_flags rd (flags a)) \<inter> set ff \<noteq> {})"
  by (auto simp: passes_flags_filter_def list_ex_iff split: option.splits)

lemma passes_marker_filter_explicit:
  "passes_marker_filter cfg in_m =
     (case marker_filter cfg of None \<Rightarrow> True | Some mf \<Rightarrow> mf = [] \<or> in_m)"
  by (auto simp: passes_marker_filter_def truthy_def split: option.splits)

lemma is_marker_explicit:
  "is_marker rd a = (flags a AND PushMarker rd \<noteq> 0 \<or> flags a AND SetMarker rd \<noteq> 0
      \<or> flags a AND PopMarker rd \<noteq> 0)"
  by (simp add: is_marker_def is_push_marker_def is_set_marker_def is_pop_marker_def)

lemma marker_passes_flags_filter: "is_marker rd a \<Longrightarrow> passes_flags_filter rd cfg a"
  by (simp add: passes_flags_filter_def split: option.splits)

lemma excluded_explicit:
  "is_marker rd a \<Longrightarrow> excluded rd cfg a =
     (case exclude_markers cfg of None \<Rightarrow> False
      | Some exs \<Rightarrow> \<exists>ex \<in> set exs. sublist ex (name a))"
  by (auto simp: excluded_def list_ex_iff split: option.splits)

lemma marker_scope_explicit:
  "passes_marker_filter cfg (in_matching rd cfg in_m a) =
     (case marker_filter cfg of None \<Rightarrow> True
      | Some mf \<Rightarrow> mf = [] \<or> in_m \<or> (flags a AND PushMarker rd \<noteq> 0 \<and> sublist mf (name a)))"
  by (auto simp: passes_marker_filter_def in_matching_def truthy_def is_push_marker_def
      split: option.splits)

lemma marker_any_config:
  assumes "is_marker rd a"
  shows "serialize_action rd cfg in_m a =
     (if (case exclude_markers cfg of None \<Rightarrow> False
          | Some exs \<Rightarrow> \<exists>ex \<in> set exs. sublist ex (name a)) then []
      else if only_actions cfg then
        (if include_children cfg
         then serialize_actions rd cfg (in_matching rd cfg in_m a) (children a) else [])
      else if include_children cfg
           \<and> serialize_actions rd cfg (in_matching rd cfg in_m a) (children a) \<noteq> []
           \<and> (case marker_filter cfg of None \<Rightarrow> True
               | Some mf \<Rightarrow> mf = [] \<or> in_m
                   \<or> (flags a AND PushMarker rd \<noteq> 0 \<and> sublist mf (name a)))
      then [make_item rd a (serialize_actions rd cfg (in_matching rd cfg in_m a) (children a))]
      else [])"
  using assms marker_passes_flags_filter [OF assms, of cfg]
  by (simp add: serialize_action_eq [of rd cfg in_m a] excluded_explicit [of rd a cfg]
      marker_scope_explicit [of cfg rd in_m a])

lemma leaf_any_config:
  assumes "\<not> is_marker rd a"
  shows "serialize_action rd cfg in_m a =
     (if (case event_id_min cfg of None \<Rightarrow> True | Some lo \<Rightarrow> lo \<le> eventId a)
         \<and> (case event_id_max cfg of None \<Rightarrow> True | Some hi \<Rightarrow> eventId a \<le> hi)
         \<and> (case flags_filter cfg of None \<Rightarrow> True
             | Some ff \<Rightarrow> ff = [] \<or> set (serialize_flags rd (flags a)) \<inter> set ff \<noteq> {})
         \<and> (case marker_filter cfg of None \<Rightarrow> True | Some mf \<Rightarrow> mf = [] \<or> in_m)
      then [make_item rd a
              (if include_children cfg then serialize_actions rd cfg in_m (children a) else [])]
      else [])"
proof -
  have "\<not> excluded rd cfg a" using assms excluded_is_marker by blast
  then show ?thesis
    using assms
    by (simp add: serialize_action_eq [of rd cfg in_m a] in_matching_leaf [OF assms]
        in_range_explicit [OF assms] passes_flags_filter_explicit [OF assms]
        passes_marker_filter_explicit [of cfg in_m])
qed

section \<open>The matching scope\<close>

text \<open>
  Called with the flag already true, the filter behaves on the whole forest as if no
  \<open>marker_filter\<close> were configured: no node below resets the flag, so the scope gate
  passes at every depth.
\<close>

lemma latched:
  "serialize_actions rd cfg True actions =
     serialize_actions rd (cfg\<lparr>marker_filter := None\<rparr>) m actions"
  "serialize_action rd cfg True a = serialize_action rd (cfg\<lparr>marker_filter := None\<rparr>) m a"
proof (induction m actions and m a rule: ser_induct)
  case (Nil in_m)
  show ?case by simp
next
  case (Cons in_m a actions)
  then show ?case by simp
next
  case (Node in_m a)
  let ?c = "cfg\<lparr>marker_filter := None\<rparr>"
  have same: "excluded rd ?c a = excluded rd cfg a" "in_range rd ?c a = in_range rd cfg a"
    "passes_flags_filter rd ?c a = passes_flags_filter rd cfg a"
    by (simp_all add: excluded_def in_range_def passes_flags_filter_def)
  have scope: "in_matching rd cfg True a" "in_matching rd ?c in_m a = in_m"
    "passes_marker_filter cfg True" "passes_marker_filter ?c in_m"
    by (simp_all add: in_matching_def passes_marker_filter_def truthy_def split: option.splits)
  from Node have kids: "serialize_actions rd cfg True (children a) =
      serialize_actions rd ?c in_m (children a)" by simp
  show ?case
    by (simp add: serialize_action_eq [of rd cfg] serialize_action_eq [of rd ?c] same scope kids)
qed

text \<open>
  C4. The flag \<open>in_matching\<close> is a one-way latch. Inherited true, it is computed true at every
  node, a pop marker included. At a node where it is computed true, the children are
  filtered with the flag true at every depth: their result is the result of filtering them
  with no \<open>marker_filter\<close> at all. In the scenario with \<open>marker_filter\<close> A, the output is the
  marker A holding the draw with event id 1; the root draw with event id 2 is left out.
\<close>

theorem in_matching_is_a_latch:
  "in_matching rd cfg True a
   \<and> (in_matching rd cfg in_m a \<longrightarrow>
        serialize_actions rd cfg (in_matching rd cfg in_m a) (children a) =
        serialize_actions rd (cfg\<lparr>marker_filter := None\<rparr>) m (children a))
   \<and> serialize_actions rd_flags (default_config\<lparr>marker_filter := Some ''A''\<rparr>) False
         scenario_forest =
       [Item 0 0 ''A'' [''PushMarker''] 0 0 (Some [Item 1 1 ''Draw'' [''Drawcall''] 3 1 None])]"
proof (intro conjI impI)
  show "in_matching rd cfg True a" by (rule in_matching_latch)
next
  assume "in_matching rd cfg in_m a"
  then show "serialize_actions rd cfg (in_matching rd cfg in_m a) (children a) =
      serialize_actions rd (cfg\<lparr>marker_filter := None\<rparr>) m (children a)"
    by (simp add: latched(1) [of rd cfg "children a" m])
next
  show "serialize_actions rd_flags (default_config\<lparr>marker_filter := Some ''A''\<rparr>) False
         scenario_forest =
       [Item 0 0 ''A'' [''PushMarker''] 0 0 (Some [Item 1 1 ''Draw'' [''Drawcall''] 3 1 None])]"
    by code_simp
qed

text \<open>
  At the marker A of the scenario the flag is computed true from an inherited false; below
  it sits a pop marker, and the draw after the pop marker is still in scope.
\<close>

theorem in_matching_is_a_latch_witness:
  "in_matching rd_flags (default_config\<lparr>marker_filter := Some ''A''\<rparr>) False
     (Action 0 0 ''A'' (PushMarker rd_flags) 0 0
        [Action 1 1 ''End'' (PopMarker rd_flags) 0 0 [], draw_2])
   \<and> serialize_actions rd_flags (default_config\<lparr>marker_filter := Some ''A''\<rparr>)
        (in_matching rd_flags (default_config\<lparr>marker_filter := Some ''A''\<rparr>) False
           (Action 0 0 ''A'' (PushMarker rd_flags) 0 0
              [Action 1 1 ''End'' (PopMarker rd_flags) 0 0 [], draw_2]))
        [Action 1 1 ''End'' (PopMarker rd_flags) 0 0 [], draw_2]
       = serialize_actions rd_flags
           (default_config\<lparr>marker_filter := Some ''A'', marker_filter := None\<rparr>) False
           [Action 1 1 ''End'' (PopMarker rd_flags) 0 0 [], draw_2]
   \<and> serialize_actions rd_flags (default_config\<lparr>marker_filter := Some ''A'', marker_filter := None\<rparr>)
         False [Action 1 1 ''End'' (PopMarker rd_flags) 0 0 [], draw_2]
       = [Item 2 2 ''Draw'' [''Drawcall''] 3 1 None]"
proof -
  let ?c = "default_config\<lparr>marker_filter := Some ''A''\<rparr>"
  let ?kids = "[Action 1 1 ''End'' (PopMarker rd_flags) 0 0 [], draw_2]"
  let ?a = "Action 0 0 ''A'' (PushMarker rd_flags) 0 0 ?kids"
  have scope: "in_matching rd_flags ?c False ?a" by code_simp
  have out: "serialize_actions rd_flags (?c\<lparr>marker_filter := None\<rparr>) False ?kids
      = [Item 2 2 ''Draw'' [''Drawcall''] 3 1 None]" by code_simp
  from in_matching_is_a_latch [of rd_flags ?c ?a False False] scope
  have "serialize_actions rd_flags ?c (in_matching rd_flags ?c False ?a) (children ?a) =
      serialize_actions rd_flags (?c\<lparr>marker_filter := None\<rparr>) False (children ?a)"
    by blast
  with scope out show ?thesis by simp
qed

section \<open>Markers need surviving children\<close>

lemma marker_without_children:
  assumes "is_marker rd a"
    and "\<not> include_children cfg
         \<or> serialize_actions rd cfg (in_matching rd cfg in_m a) (children a) = []"
  shows "serialize_action rd cfg in_m a = []"
  using assms by (auto simp: serialize_action_eq)

lemma markers_have_children:
  "list_all (\<lambda>it. item_is_marker it \<longrightarrow> (\<exists>cs. item_children it = Some cs \<and> cs \<noteq> []))
     (all_items (serialize_actions rd cfg in_m actions))"
  "list_all (\<lambda>it. item_is_marker it \<longrightarrow> (\<exists>cs. item_children it = Some cs \<and> cs \<noteq> []))
     (all_items (serialize_action rd cfg in_m a))"
proof (induction in_m actions and in_m a rule: ser_induct)
  case (Nil in_m)
  show ?case by simp
next
  case (Cons in_m a actions)
  then show ?case by simp
next
  case (Node in_m a)
  then show ?case
    by (simp add: serialize_action_eq item_children_make_item)
qed

text \<open>
  C5. A marker whose recursively filtered children are the empty sequence adds nothing to
  the output, under every configuration; so does a marker that has no children. Every
  marker node found in an output, at any depth, carries a non-empty list of children.
\<close>

theorem marker_needs_children:
  "(is_marker rd a \<and> serialize_actions rd cfg (in_matching rd cfg in_m a) (children a) = []
      \<longrightarrow> serialize_action rd cfg in_m a = [])
   \<and> (is_marker rd a \<and> children a = [] \<longrightarrow> serialize_action rd cfg in_m a = [])
   \<and> list_all (\<lambda>it. item_is_marker it \<longrightarrow> (\<exists>cs. item_children it = Some cs \<and> cs \<noteq> []))
         (all_items (serialize_actions rd cfg in_m actions))"
proof (intro conjI impI)
  assume "is_marker rd a \<and> serialize_actions rd cfg (in_matching rd cfg in_m a) (children a) = []"
  then show "serialize_action rd cfg in_m a = []"
    by (simp add: marker_without_children)
next
  assume "is_marker rd a \<and> children a = []"
  then show "serialize_action rd cfg in_m a = []"
    by (simp add: marker_without_children)
next
  show "list_all (\<lambda>it. item_is_marker it \<longrightarrow> (\<exists>cs. item_children it = Some cs \<and> cs \<noteq> []))
         (all_items (serialize_actions rd cfg in_m actions))"
    by (rule markers_have_children(1))
qed

text \<open>
  A set marker with no children under the default configuration, and a push marker whose
  only child is such a set marker.
\<close>

theorem marker_needs_children_witness:
  "is_marker rd_flags (Action 7 7 ''Label'' (SetMarker rd_flags) 0 0 [])
   \<and> children (Action 7 7 ''Label'' (SetMarker rd_flags) 0 0 []) = []
   \<and> serialize_action rd_flags default_config False
         (Action 7 7 ''Label'' (SetMarker rd_flags) 0 0 []) = []
   \<and> is_marker rd_flags
         (Action 6 6 ''Pass'' (PushMarker rd_flags) 0 0
            [Action 7 7 ''Label'' (SetMarker rd_flags) 0 0 []])
   \<and> serialize_action rd_flags default_config False
         (Action 6 6 ''Pass'' (PushMarker rd_flags) 0 0
            [Action 7 7 ''Label'' (SetMarker rd_flags) 0 0 []]) = []
   \<and> all_items (serialize_actions rd_flags default_config False scenario_forest) =
       [Item 0 0 ''A'' [''PushMarker''] 0 0 (Some [Item 1 1 ''Draw'' [''Drawcall''] 3 1 None]),
        Item 1 1 ''Draw'' [''Drawcall''] 3 1 None,
        Item 2 2 ''Draw'' [''Drawcall''] 3 1 None]"
proof -
  let ?label = "Action 7 7 ''Label'' (SetMarker rd_flags) 0 0 []"
  let ?pass = "Action 6 6 ''Pass'' (PushMarker rd_flags) 0 0 [?label]"
  have m1: "is_marker rd_flags ?label" and m2: "is_marker rd_flags ?pass" by code_simp+
  have c1: "children ?label = []" by simp
  have c2: "serialize_actions rd_flags default_config
      (in_matching rd_flags default_config False ?pass) (children ?pass) = []" by code_simp
  have out: "all_items (serialize_actions rd_flags default_config False scenario_forest) =
       [Item 0 0 ''A'' [''PushMarker''] 0 0 (Some [Item 1 1 ''Draw'' [''Drawcall''] 3 1 None]),
        Item 1 1 ''Draw'' [''Drawcall''] 3 1 None,
        Item 2 2 ''Draw'' [''Drawcall''] 3 1 None]" by code_simp
  from marker_needs_children [of rd_flags ?label default_config False scenario_forest] m1 c1
  have "serialize_action rd_flags default_config False ?label = []" by blast
  moreover
  from marker_needs_children [of rd_flags ?pass default_config False scenario_forest] m2 c2
  have "serialize_action rd_flags default_config False ?pass = []" by blast
  ultimately show ?thesis using m1 m2 c1 out by simp
qed

section \<open>The range of event ids\<close>

lemma marker_under_range:
  assumes "is_marker rd a" and "include_children cfg" and "\<not> only_actions cfg"
    and "\<not> truthy (marker_filter cfg)" and "\<not> truthy (exclude_markers cfg)"
  shows "serialize_action rd cfg in_m a =
     (if serialize_actions rd cfg in_m (children a) = [] then []
      else [make_item rd a (serialize_actions rd cfg in_m (children a))])"
proof -
  have "\<not> excluded rd cfg a"
    using assms(5) by (auto simp: excluded_def truthy_def split: option.splits)
  moreover have "passes_flags_filter rd cfg a"
    using assms(1) by (simp add: passes_flags_filter_def split: option.splits)
  moreover have "in_matching rd cfg in_m a = in_m"
    using assms(4) by (auto simp: in_matching_def truthy_def split: option.splits)
  moreover have "passes_marker_filter cfg in_m"
    using assms(4) by (simp add: passes_marker_filter_def)
  ultimately show ?thesis using assms(1,2,3) by (simp add: serialize_action_eq)
qed

lemma leaf_under_range:
  assumes "\<not> is_marker rd a" and "include_children cfg"
    and "\<not> truthy (marker_filter cfg)" and "\<not> truthy (flags_filter cfg)"
  shows "serialize_action rd cfg in_m a =
     (if (case event_id_min cfg of None \<Rightarrow> True | Some lo \<Rightarrow> lo \<le> eventId a)
        \<and> (case event_id_max cfg of None \<Rightarrow> True | Some hi \<Rightarrow> eventId a \<le> hi)
      then [make_item rd a (serialize_actions rd cfg in_m (children a))] else [])"
proof -
  have "\<not> excluded rd cfg a" using assms(1) excluded_is_marker by blast
  moreover have "passes_flags_filter rd cfg a"
    using assms(4) by (auto simp: passes_flags_filter_def truthy_def split: option.splits)
  moreover have "in_matching rd cfg in_m a = in_m"
    using assms(3) by (auto simp: in_matching_def truthy_def split: option.splits)
  moreover have "passes_marker_filter cfg in_m"
    using assms(3) by (simp add: passes_marker_filter_def)
  moreover have "in_range rd cfg a =
      ((case event_id_min cfg of None \<Rightarrow> True | Some lo \<Rightarrow> lo \<le> eventId a)
        \<and> (case event_id_max cfg of None \<Rightarrow> True | Some hi \<Rightarrow> eventId a \<le> hi))"
    using assms(1) by (auto simp: in_range_def split: option.splits)
  ultimately show ?thesis using assms(1,2) by (simp add: serialize_action_eq)
qed

lemma marker_range_only_through_children:
  assumes "is_marker rd a"
    and "serialize_actions rd (cfg\<lparr>event_id_min := lo, event_id_max := hi\<rparr>)
           (in_matching rd (cfg\<lparr>event_id_min := lo, event_id_max := hi\<rparr>) in_m a) (children a)
         = serialize_actions rd cfg (in_matching rd cfg in_m a) (children a)"
  shows "serialize_action rd (cfg\<lparr>event_id_min := lo, event_id_max := hi\<rparr>) in_m a
       = serialize_action rd cfg in_m a"
proof -
  let ?c = "cfg\<lparr>event_id_min := lo, event_id_max := hi\<rparr>"
  show ?thesis
    unfolding marker_any_config [OF assms(1), of ?c] marker_any_config [OF assms(1), of cfg]
      assms(2)
    by simp
qed

text \<open>
  C6. For every configuration, the result for a marker is given by the exclusion by name,
  \<open>only_actions\<close>, \<open>include_children\<close>, the scope gate and the result for its children: the
  marker's own event id is tested against no bound, so the range reaches a marker only
  through the result for its children, and two ranges that leave the children's result
  the same leave the marker's result the same. An action that is no marker is emitted
  exactly when its event id lies in the inclusive range and it passes the \<open>flags_filter\<close>
  and the scope gate. When the range is the only filter, a marker is emitted, with its
  filtered children, exactly when these are not empty. In the scenario with
  \<open>event_id_min\<close> 2, the output is the single node with event id 2.
\<close>

theorem range_applies_to_leaves_only:
  "(is_marker rd a \<longrightarrow>
      serialize_action rd cfg in_m a =
        (if (case exclude_markers cfg of None \<Rightarrow> False
             | Some exs \<Rightarrow> \<exists>ex \<in> set exs. sublist ex (name a)) then []
         else if only_actions cfg then
           (if include_children cfg
            then serialize_actions rd cfg (in_matching rd cfg in_m a) (children a) else [])
         else if include_children cfg
              \<and> serialize_actions rd cfg (in_matching rd cfg in_m a) (children a) \<noteq> []
              \<and> (case marker_filter cfg of None \<Rightarrow> True
                  | Some mf \<Rightarrow> mf = [] \<or> in_m
                      \<or> (flags a AND PushMarker rd \<noteq> 0 \<and> sublist mf (name a)))
         then [make_item rd a (serialize_actions rd cfg (in_matching rd cfg in_m a) (children a))]
         else []))
   \<and> (is_marker rd a
        \<and> serialize_actions rd (cfg\<lparr>event_id_min := new_min, event_id_max := new_max\<rparr>)
              (in_matching rd (cfg\<lparr>event_id_min := new_min, event_id_max := new_max\<rparr>) in_m a)
              (children a)
            = serialize_actions rd cfg (in_matching rd cfg in_m a) (children a) \<longrightarrow>
        serialize_action rd (cfg\<lparr>event_id_min := new_min, event_id_max := new_max\<rparr>) in_m a
          = serialize_action rd cfg in_m a)
   \<and> (\<not> is_marker rd a \<longrightarrow>
        serialize_action rd cfg in_m a =
          (if (case event_id_min cfg of None \<Rightarrow> True | Some lo \<Rightarrow> lo \<le> eventId a)
              \<and> (case event_id_max cfg of None \<Rightarrow> True | Some hi \<Rightarrow> eventId a \<le> hi)
              \<and> (case flags_filter cfg of None \<Rightarrow> True
                  | Some ff \<Rightarrow> ff = [] \<or> set (serialize_flags rd (flags a)) \<inter> set ff \<noteq> {})
              \<and> (case marker_filter cfg of None \<Rightarrow> True | Some mf \<Rightarrow> mf = [] \<or> in_m)
           then [make_item rd a
                   (if include_children cfg then serialize_actions rd cfg in_m (children a)
                    else [])]
           else []))
   \<and> (is_marker rd a \<and> include_children cfg \<and> \<not> only_actions cfg
        \<and> \<not> truthy (marker_filter cfg) \<and> \<not> truthy (exclude_markers cfg) \<longrightarrow>
        serialize_action rd cfg in_m a =
          (if serialize_actions rd cfg in_m (children a) = [] then []
           else [make_item rd a (serialize_actions rd cfg in_m (children a))]))
   \<and> serialize_actions rd_flags (default_config\<lparr>event_id_min := Some 2\<rparr>) False
         scenario_forest = [Item 2 2 ''Draw'' [''Drawcall''] 3 1 None]"
proof (intro conjI impI)
  assume "is_marker rd a"
  then show "serialize_action rd cfg in_m a =
        (if (case exclude_markers cfg of None \<Rightarrow> False
             | Some exs \<Rightarrow> \<exists>ex \<in> set exs. sublist ex (name a)) then []
         else if only_actions cfg then
           (if include_children cfg
            then serialize_actions rd cfg (in_matching rd cfg in_m a) (children a) else [])
         else if include_children cfg
              \<and> serialize_actions rd cfg (in_matching rd cfg in_m a) (children a) \<noteq> []
              \<and> (case marker_filter cfg of None \<Rightarrow> True
                  | Some mf \<Rightarrow> mf = [] \<or> in_m
                      \<or> (flags a AND PushMarker rd \<noteq> 0 \<and> sublist mf (name a)))
         then [make_item rd a (serialize_actions rd cfg (in_matching rd cfg in_m a) (children a))]
         else [])"
    by (rule marker_any_config)
next
  assume "is_marker rd a
        \<and> serialize_actions rd (cfg\<lparr>event_id_min := new_min, event_id_max := new_max\<rparr>)
              (in_matching rd (cfg\<lparr>event_id_min := new_min, event_id_max := new_max\<rparr>) in_m a)
              (children a)
            = serialize_actions rd cfg (in_matching rd cfg in_m a) (children a)"
  then show "serialize_action rd (cfg\<lparr>event_id_min := new_min, event_id_max := new_max\<rparr>) in_m a
          = serialize_action rd cfg in_m a"
    using marker_range_only_through_children
      [where rd = rd and a = a and cfg = cfg and lo = new_min and hi = new_max and in_m = in_m] by blast
next
  assume "\<not> is_marker rd a"
  then show "serialize_action rd cfg in_m a =
          (if (case event_id_min cfg of None \<Rightarrow> True | Some lo \<Rightarrow> lo \<le> eventId a)
              \<and> (case event_id_max cfg of None \<Rightarrow> True | Some hi \<Rightarrow> eventId a \<le> hi)
              \<and> (case flags_filter cfg of None \<Rightarrow> True
                  | Some ff \<Rightarrow> ff = [] \<or> set (serialize_flags rd (flags a)) \<inter> set ff \<noteq> {})
              \<and> (case marker_filter cfg of None \<Rightarrow> True | Some mf \<Rightarrow> mf = [] \<or> in_m)
           then [make_item rd a
                   (if include_children cfg then serialize_actions rd cfg in_m (children a)
                    else [])]
           else [])"
    by (rule leaf_any_config)
next
  assume "is_marker rd a \<and> include_children cfg \<and> \<not> only_actions cfg
        \<and> \<not> truthy (marker_filter cfg) \<and> \<not> truthy (exclude_markers cfg)"
  then show "serialize_action rd cfg in_m a =
          (if serialize_actions rd cfg in_m (children a) = [] then []
           else [make_item rd a (serialize_actions rd cfg in_m (children a))])"
    using marker_under_range [of rd a cfg in_m] by blast
next
  show "serialize_actions rd_flags (default_config\<lparr>event_id_min := Some 2\<rparr>) False
      scenario_forest = [Item 2 2 ''Draw'' [''Drawcall''] 3 1 None]"
    by code_simp
qed

text \<open>
  With the range 1 to 1 and every other filter set, the push marker A with event id 0 is
  emitted with its child, and the wider range 0 to 5 gives the same. With the range
  from 2 on and a \<open>flags_filter\<close>, the draw with event id 2 is emitted and the draw with
  event id 1 is not. With the range from 2 on alone, the marker A is left out, since its
  child is.
\<close>

theorem range_applies_to_leaves_only_witness:
  "is_marker rd_flags push_A
   \<and> serialize_action rd_flags all_filters_config False push_A
       = [Item 0 0 ''A'' [''PushMarker''] 0 0 (Some [Item 1 1 ''Draw'' [''Drawcall''] 3 1 None])]
   \<and> serialize_actions rd_flags
         (all_filters_config\<lparr>event_id_min := Some 0, event_id_max := Some 5\<rparr>)
         (in_matching rd_flags
            (all_filters_config\<lparr>event_id_min := Some 0, event_id_max := Some 5\<rparr>) False push_A)
         (children push_A)
       = serialize_actions rd_flags all_filters_config
           (in_matching rd_flags all_filters_config False push_A) (children push_A)
   \<and> serialize_action rd_flags
         (all_filters_config\<lparr>event_id_min := Some 0, event_id_max := Some 5\<rparr>) False push_A
       = serialize_action rd_flags all_filters_config False push_A
   \<and> \<not> is_marker rd_flags draw_2 \<and> \<not> is_marker rd_flags draw_1
   \<and> serialize_action rd_flags range_and_flags_config False draw_2
       = [Item 2 2 ''Draw'' [''Drawcall''] 3 1 None]
   \<and> serialize_action rd_flags range_and_flags_config False draw_1 = []
   \<and> include_children (default_config\<lparr>event_id_min := Some 2\<rparr>)
   \<and> \<not> only_actions (default_config\<lparr>event_id_min := Some 2\<rparr>)
   \<and> \<not> truthy (marker_filter (default_config\<lparr>event_id_min := Some 2\<rparr>))
   \<and> \<not> truthy (exclude_markers (default_config\<lparr>event_id_min := Some 2\<rparr>))
   \<and> serialize_action rd_flags (default_config\<lparr>event_id_min := Some 2\<rparr>) False push_A = []"
proof -
  let ?wide = "all_filters_config\<lparr>event_id_min := Some 0, event_id_max := Some 5\<rparr>"
  let ?c2 = "default_config\<lparr>event_id_min := Some 2\<rparr>"
  have m: "is_marker rd_flags push_A" by code_simp
  have l2: "\<not> is_marker rd_flags draw_2" and l1: "\<not> is_marker rd_flags draw_1" by code_simp+
  have kids: "serialize_actions rd_flags ?wide (in_matching rd_flags ?wide False push_A)
         (children push_A)
       = serialize_actions rd_flags all_filters_config
           (in_matching rd_flags all_filters_config False push_A) (children push_A)"
    by code_simp
  have c2: "include_children ?c2" "\<not> only_actions ?c2" "\<not> truthy (marker_filter ?c2)"
    "\<not> truthy (exclude_markers ?c2)"
    by (simp_all add: default_config_def truthy_def)
  note marker_eq = range_applies_to_leaves_only
    [where rd = rd_flags and a = push_A and cfg = all_filters_config and in_m = False,
     THEN conjunct1, THEN mp, OF m]
  have r1: "serialize_action rd_flags all_filters_config False push_A
       = [Item 0 0 ''A'' [''PushMarker''] 0 0 (Some [Item 1 1 ''Draw'' [''Drawcall''] 3 1 None])]"
    unfolding marker_eq by code_simp
  note stable = range_applies_to_leaves_only
    [where rd = rd_flags and a = push_A and cfg = all_filters_config and in_m = False
       and new_min = "Some 0" and new_max = "Some 5",
     THEN conjunct2, THEN conjunct1, THEN mp, OF conjI, OF m kids]
  note leaf_2 = range_applies_to_leaves_only
    [where rd = rd_flags and a = draw_2 and cfg = range_and_flags_config and in_m = False,
     THEN conjunct2, THEN conjunct2, THEN conjunct1, THEN mp, OF l2]
  note leaf_1 = range_applies_to_leaves_only
    [where rd = rd_flags and a = draw_1 and cfg = range_and_flags_config and in_m = False,
     THEN conjunct2, THEN conjunct2, THEN conjunct1, THEN mp, OF l1]
  have r2: "serialize_action rd_flags range_and_flags_config False draw_2
       = [Item 2 2 ''Draw'' [''Drawcall''] 3 1 None]"
    unfolding leaf_2 by code_simp
  have r3: "serialize_action rd_flags range_and_flags_config False draw_1 = []"
    unfolding leaf_1 by code_simp
  have pre: "is_marker rd_flags push_A \<and> include_children ?c2 \<and> \<not> only_actions ?c2
      \<and> \<not> truthy (marker_filter ?c2) \<and> \<not> truthy (exclude_markers ?c2)"
    using m c2 by (intro conjI)
  note sole = range_applies_to_leaves_only
    [where rd = rd_flags and a = push_A and cfg = ?c2 and in_m = False,
     THEN conjunct2, THEN conjunct2, THEN conjunct2, THEN conjunct1, THEN mp, OF pre]
  have r4: "serialize_action rd_flags ?c2 False push_A = []"
    unfolding sole by code_simp
  from m r1 kids stable l2 l1 r2 r3 c2 r4 show ?thesis by (intro conjI)
qed

text \<open>With \<open>event_id_min\<close> above \<open>event_id_max\<close>, no action that is no marker lies in the range.\<close>

lemma empty_range:
  assumes "event_id_min cfg = Some lo" and "event_id_max cfg = Some hi" and "hi < lo"
  shows "serialize_actions rd cfg in_m actions = []"
    and "serialize_action rd cfg in_m a = []"
proof (induction in_m actions and in_m a rule: ser_induct)
  case (Nil in_m)
  show ?case by simp
next
  case (Cons in_m a actions)
  then show ?case by simp
next
  case (Node in_m a)
  have "\<not> is_marker rd a \<Longrightarrow> \<not> in_range rd cfg a"
    using assms by (simp add: in_range_def) linarith
  with Node show ?case
    by (simp add: serialize_action_eq)
qed

text \<open>
  C7. The filter is a total function: it returns a list for every forest and every
  configuration, and raises nothing. With \<open>event_id_min\<close> strictly greater than
  \<open>event_id_max\<close> the list is empty, for every forest and whatever the other fields are.
\<close>

theorem empty_range_gives_empty_output:
  assumes "event_id_min cfg = Some lo" and "event_id_max cfg = Some hi" and "hi < lo"
  shows "serialize_actions rd cfg in_m actions = []"
  using assms by (rule empty_range(1))

text \<open>The range from 2 to 1 on the scenario's forest, whose event ids are 0, 1 and 2.\<close>

theorem empty_range_gives_empty_output_witness:
  "event_id_min (default_config\<lparr>event_id_min := Some 2, event_id_max := Some 1\<rparr>) = Some 2
   \<and> event_id_max (default_config\<lparr>event_id_min := Some 2, event_id_max := Some 1\<rparr>) = Some 1
   \<and> (1 :: int) < 2
   \<and> serialize_actions rd_flags (default_config\<lparr>event_id_min := Some 2, event_id_max := Some 1\<rparr>)
         False scenario_forest = []"
proof -
  let ?c = "default_config\<lparr>event_id_min := Some 2, event_id_max := Some 1\<rparr>"
  have lo: "event_id_min ?c = Some 2" and hi: "event_id_max ?c = Some 1"
    by (simp_all add: default_config_def)
  have lt: "(1 :: int) < 2" by simp
  from empty_range_gives_empty_output [OF lo hi lt, of rd_flags False scenario_forest] lo hi lt
  show ?thesis by simp
qed

section \<open>Without the children\<close>

lemma no_children_action:
  assumes "\<not> include_children cfg"
  shows "serialize_action rd cfg in_m a =
     (if \<not> is_marker rd a \<and> in_range rd cfg a \<and> passes_flags_filter rd cfg a
          \<and> passes_marker_filter cfg in_m
      then [make_item rd a []] else [])"
  using assms excluded_is_marker [of rd cfg a]
  by (auto simp: serialize_action_eq in_matching_leaf)

lemma no_children_actions:
  assumes "\<not> include_children cfg"
  shows "serialize_actions rd cfg in_m actions =
     map (\<lambda>a. make_item rd a [])
       (filter (\<lambda>a. \<not> is_marker rd a \<and> in_range rd cfg a \<and> passes_flags_filter rd cfg a
          \<and> passes_marker_filter cfg in_m) actions)"
  by (induction actions) (simp_all add: no_children_action [OF assms])

lemma no_children_action_explicit:
  assumes "\<not> include_children cfg"
  shows "serialize_action rd cfg in_m a =
     (if flags a AND PushMarker rd = 0 \<and> flags a AND SetMarker rd = 0
          \<and> flags a AND PopMarker rd = 0
          \<and> (case event_id_min cfg of None \<Rightarrow> True | Some lo \<Rightarrow> lo \<le> eventId a)
          \<and> (case event_id_max cfg of None \<Rightarrow> True | Some hi \<Rightarrow> eventId a \<le> hi)
          \<and> (case flags_filter cfg of None \<Rightarrow> True
              | Some ff \<Rightarrow> ff = [] \<or> set (serialize_flags rd (flags a)) \<inter> set ff \<noteq> {})
          \<and> (case marker_filter cfg of None \<Rightarrow> True | Some mf \<Rightarrow> mf = [] \<or> in_m)
      then [Item (eventId a) (actionId a) (name a) (serialize_flags rd (flags a))
              (numIndices a) (numInstances a) None]
      else [])"
proof (cases "is_marker rd a")
  case True
  then show ?thesis
    using no_children_action [OF assms, of rd in_m a] by (auto simp: is_marker_explicit)
next
  case False
  then have "flags a AND PushMarker rd = 0 \<and> flags a AND SetMarker rd = 0
      \<and> flags a AND PopMarker rd = 0" by (simp add: is_marker_explicit)
  with False show ?thesis
    using no_children_action [OF assms, of rd in_m a]
    by (simp add: in_range_explicit passes_flags_filter_explicit
        passes_marker_filter_explicit [of cfg in_m] make_item_def)
qed

lemma no_children_actions_explicit:
  assumes "\<not> include_children cfg"
  shows "serialize_actions rd cfg in_m actions =
     map (\<lambda>a. Item (eventId a) (actionId a) (name a) (serialize_flags rd (flags a))
              (numIndices a) (numInstances a) None)
       (filter (\<lambda>a. flags a AND PushMarker rd = 0 \<and> flags a AND SetMarker rd = 0
          \<and> flags a AND PopMarker rd = 0
          \<and> (case event_id_min cfg of None \<Rightarrow> True | Some lo \<Rightarrow> lo \<le> eventId a)
          \<and> (case event_id_max cfg of None \<Rightarrow> True | Some hi \<Rightarrow> eventId a \<le> hi)
          \<and> (case flags_filter cfg of None \<Rightarrow> True
              | Some ff \<Rightarrow> ff = [] \<or> set (serialize_flags rd (flags a)) \<inter> set ff \<noteq> {})
          \<and> (case marker_filter cfg of None \<Rightarrow> True | Some mf \<Rightarrow> mf = [] \<or> in_m))
        actions)"
proof (induction actions)
  case Nil
  show ?case by simp
next
  case (Cons a actions)
  show ?case
    unfolding serialize_actions.simps Cons no_children_action_explicit [OF assms]
    by simp
qed

text \<open>
  C10. With \<open>include_children\<close> false the output is the sequence of the root actions that
  have none of the three marker bits, whose event id is not below \<open>event_id_min\<close> and not
  above \<open>event_id_max\<close> (where set), one of whose flag names is in the \<open>flags_filter\<close>
  (where set and not empty), and for which \<open>marker_filter\<close> is unset or empty or the
  inherited scope flag is true; they come in their order, each rendered with its own
  fields and without the key \<open>children\<close>. So no node of the output is a marker and none
  has children.
\<close>

theorem roots_only_without_children:
  assumes "\<not> include_children cfg"
  shows "serialize_actions rd cfg in_m actions =
           map (\<lambda>a. Item (eventId a) (actionId a) (name a) (serialize_flags rd (flags a))
                    (numIndices a) (numInstances a) None)
             (filter (\<lambda>a. flags a AND PushMarker rd = 0 \<and> flags a AND SetMarker rd = 0
                \<and> flags a AND PopMarker rd = 0
                \<and> (case event_id_min cfg of None \<Rightarrow> True | Some lo \<Rightarrow> lo \<le> eventId a)
                \<and> (case event_id_max cfg of None \<Rightarrow> True | Some hi \<Rightarrow> eventId a \<le> hi)
                \<and> (case flags_filter cfg of None \<Rightarrow> True
                    | Some ff \<Rightarrow> ff = [] \<or> set (serialize_flags rd (flags a)) \<inter> set ff \<noteq> {})
                \<and> (case marker_filter cfg of None \<Rightarrow> True | Some mf \<Rightarrow> mf = [] \<or> in_m))
              actions)
       \<and> list_all (\<lambda>it. \<not> item_is_marker it \<and> item_children it = None)
             (serialize_actions rd cfg in_m actions)"
proof
  show "serialize_actions rd cfg in_m actions =
           map (\<lambda>a. Item (eventId a) (actionId a) (name a) (serialize_flags rd (flags a))
                    (numIndices a) (numInstances a) None)
             (filter (\<lambda>a. flags a AND PushMarker rd = 0 \<and> flags a AND SetMarker rd = 0
                \<and> flags a AND PopMarker rd = 0
                \<and> (case event_id_min cfg of None \<Rightarrow> True | Some lo \<Rightarrow> lo \<le> eventId a)
                \<and> (case event_id_max cfg of None \<Rightarrow> True | Some hi \<Rightarrow> eventId a \<le> hi)
                \<and> (case flags_filter cfg of None \<Rightarrow> True
                    | Some ff \<Rightarrow> ff = [] \<or> set (serialize_flags rd (flags a)) \<inter> set ff \<noteq> {})
                \<and> (case marker_filter cfg of None \<Rightarrow> True | Some mf \<Rightarrow> mf = [] \<or> in_m))
              actions)"
    using assms by (rule no_children_actions_explicit)
  show "list_all (\<lambda>it. \<not> item_is_marker it \<and> item_children it = None)
      (serialize_actions rd cfg in_m actions)"
    unfolding no_children_actions [OF assms]
    by (simp add: list_all_iff item_children_make_item)
qed

text \<open>
  Six root actions under the range 2 to 6 and the \<open>flags_filter\<close> Drawcall: the marker, the
  draws with event ids 1 and 9 and the dispatch are left out. With the \<open>marker_filter\<close> A
  added, nothing is emitted from outside the scope, and the same two draws from inside.
\<close>

theorem roots_only_without_children_witness:
  "\<not> include_children roots_config
   \<and> \<not> include_children (roots_config\<lparr>marker_filter := Some ''A''\<rparr>)
   \<and> serialize_actions rd_flags roots_config False mixed_roots =
       [Item 2 2 ''Draw'' [''Drawcall''] 3 1 None,
        Item 5 5 ''Draw'' [''Drawcall'', ''Indexed''] 36 1 None]
   \<and> serialize_actions rd_flags (roots_config\<lparr>marker_filter := Some ''A''\<rparr>) False mixed_roots = []
   \<and> serialize_actions rd_flags (roots_config\<lparr>marker_filter := Some ''A''\<rparr>) True mixed_roots =
       [Item 2 2 ''Draw'' [''Drawcall''] 3 1 None,
        Item 5 5 ''Draw'' [''Drawcall'', ''Indexed''] 36 1 None]
   \<and> list_all (\<lambda>it. \<not> item_is_marker it \<and> item_children it = None)
         (serialize_actions rd_flags roots_config False mixed_roots)"
proof -
  let ?sel = "\<lambda>cfg in_m a. flags a AND PushMarker rd_flags = 0 \<and> flags a AND SetMarker rd_flags = 0
      \<and> flags a AND PopMarker rd_flags = 0
      \<and> (case event_id_min cfg of None \<Rightarrow> True | Some lo \<Rightarrow> lo \<le> eventId a)
      \<and> (case event_id_max cfg of None \<Rightarrow> True | Some hi \<Rightarrow> eventId a \<le> hi)
      \<and> (case flags_filter cfg of None \<Rightarrow> True
          | Some ff \<Rightarrow> ff = [] \<or> set (serialize_flags rd_flags (flags a)) \<inter> set ff \<noteq> {})
      \<and> (case marker_filter cfg of None \<Rightarrow> True | Some mf \<Rightarrow> mf = [] \<or> in_m)"
  let ?render = "\<lambda>a. Item (eventId a) (actionId a) (name a) (serialize_flags rd_flags (flags a))
      (numIndices a) (numInstances a) None"
  let ?m = "roots_config\<lparr>marker_filter := Some ''A''\<rparr>"
  have h1: "\<not> include_children roots_config" by (simp add: roots_config_def)
  have h2: "\<not> include_children ?m" by (simp add: roots_config_def)
  have e1: "map ?render (filter (?sel roots_config False) mixed_roots) =
      [Item 2 2 ''Draw'' [''Drawcall''] 3 1 None,
       Item 5 5 ''Draw'' [''Drawcall'', ''Indexed''] 36 1 None]" by code_simp
  have e2: "map ?render (filter (?sel ?m False) mixed_roots) = []" by code_simp
  have e3: "map ?render (filter (?sel ?m True) mixed_roots) =
      [Item 2 2 ''Draw'' [''Drawcall''] 3 1 None,
       Item 5 5 ''Draw'' [''Drawcall'', ''Indexed''] 36 1 None]" by code_simp
  note t1 = roots_only_without_children [OF h1, of rd_flags False mixed_roots]
  note t2 = roots_only_without_children [OF h2, of rd_flags False mixed_roots]
  note t3 = roots_only_without_children [OF h2, of rd_flags True mixed_roots]
  have r1: "serialize_actions rd_flags roots_config False mixed_roots =
      [Item 2 2 ''Draw'' [''Drawcall''] 3 1 None,
       Item 5 5 ''Draw'' [''Drawcall'', ''Indexed''] 36 1 None]"
    using t1 [THEN conjunct1] e1 by (rule trans)
  have r2: "serialize_actions rd_flags ?m False mixed_roots = []"
    using t2 [THEN conjunct1] e2 by (rule trans)
  have r3: "serialize_actions rd_flags ?m True mixed_roots =
      [Item 2 2 ''Draw'' [''Drawcall''] 3 1 None,
       Item 5 5 ''Draw'' [''Drawcall'', ''Indexed''] 36 1 None]"
    using t3 [THEN conjunct1] e3 by (rule trans)
  from h1 h2 r1 r2 r3 t1 [THEN conjunct2] show ?thesis by (intro conjI)
qed

section \<open>The summary of a frame\<close>

lemma flatten_action_eq: "flatten_action a = a # flatten_actions (children a)"
  by (cases a) simp

lemma count_children_flatten:
  "count_children_loop actions count = count + int (length (flatten_actions actions))"
  "count_children a = int (length (flatten_actions (children a)))"
proof (induction actions and a arbitrary: count rule: forest_induct)
  case Nil
  show ?case by simp
next
  case (Cons a actions)
  then show ?case by (simp add: flatten_action_eq)
next
  case (Node a)
  then show ?case by (cases a) simp
qed

lemma count_actions_fold:
  "count_actions rd actions c = foldl (count_step rd) c (flatten_actions actions)"
  "count_action rd a c = foldl (count_step rd) c (flatten_action a)"
proof (induction actions and a arbitrary: c and c rule: forest_induct)
  case Nil
  show ?case by simp
next
  case (Cons a actions)
  then show ?case by simp
next
  case (Node a)
  then show ?case by (cases a) (simp add: count_step_def Let_def)
qed

lemma push_or_set:
  fixes fl :: "32 word"
  shows "fl AND p \<noteq> 0 \<Longrightarrow> fl AND (p OR s) \<noteq> 0"
  by (simp add: bit.conj_disj_distrib or_eq_0_iff)

lemma count_flags_draw_calls:
  "draw_calls (count_flags rd fl s) = draw_calls s + (if fl AND Drawcall rd \<noteq> 0 then 1 else 0)"
  by (simp add: count_flags_def Let_def)

lemma count_flags_markers:
  "markers (count_flags rd fl s) =
     markers s + (if fl AND (PushMarker rd OR SetMarker rd) \<noteq> 0 then 1 else 0)"
  by (simp add: count_flags_def Let_def)


lemma fold_total:
  "total (foldl (count_step rd) c xs) = total c + int (length xs)"
  by (induction xs arbitrary: c) (simp_all add: count_step_def)

lemma fold_draw_calls:
  "draw_calls (the_stats (foldl (count_step rd) c xs)) =
     draw_calls (the_stats c) + int (length (filter (\<lambda>a. flags a AND Drawcall rd \<noteq> 0) xs))"
  by (induction xs arbitrary: c) (simp_all add: count_step_def count_flags_draw_calls)

lemma fold_markers:
  "markers (the_stats (foldl (count_step rd) c xs)) =
     markers (the_stats c)
       + int (length (filter (\<lambda>a. flags a AND (PushMarker rd OR SetMarker rd) \<noteq> 0) xs))"
  by (induction xs arbitrary: c) (simp_all add: count_step_def count_flags_markers)


lemma count_actions_total:
  "total (count_actions rd actions c) = total c + int (length (flatten_actions actions))"
  by (simp add: count_actions_fold fold_total)

lemma count_actions_draw_calls:
  "draw_calls (the_stats (count_actions rd actions c)) =
     draw_calls (the_stats c)
       + int (length (filter (\<lambda>a. flags a AND Drawcall rd \<noteq> 0) (flatten_actions actions)))"
  by (simp add: count_actions_fold fold_draw_calls)

lemma count_actions_markers:
  "markers (the_stats (count_actions rd actions c)) =
     markers (the_stats c)
       + int (length (filter (\<lambda>a. flags a AND (PushMarker rd OR SetMarker rd) \<noteq> 0)
           (flatten_actions actions)))"
  by (simp add: count_actions_fold fold_markers)

lemma filter_all: "list_all P xs \<Longrightarrow> filter P xs = xs"
  by (induction xs) simp_all

lemma filter_none: "list_all (\<lambda>x. \<not> P x) xs \<Longrightarrow> filter P xs = []"
  by (induction xs) simp_all

text \<open>
  C9. For a forest of one root push marker named Pass1 that has exactly two descendants,
  both of them draw calls and no markers, \<open>get_frame_summary\<close> returns a summary whose
  \<open>top_level_markers\<close> is the single entry for Pass1 with the marker's event id and
  \<open>child_count\<close> 2 (the number of all descendants), whose \<open>markers\<close> counter is 1 and whose
  \<open>draw_calls\<close> counter is 2.
\<close>

theorem summary_of_one_pass:
  assumes "name root = ''Pass1''"
    and "flags root AND PushMarker rd \<noteq> 0" and "flags root AND Drawcall rd = 0"
    and "length (flatten_actions (children root)) = 2"
    and "list_all (\<lambda>d. flags d AND Drawcall rd \<noteq> 0) (flatten_actions (children root))"
    and "list_all (\<lambda>d. \<not> flags d AND (PushMarker rd OR SetMarker rd) \<noteq> 0)
           (flatten_actions (children root))"
  shows "\<exists>s. get_frame_summary rd True (ctl\<lparr>root_actions := [root]\<rparr>) = Inr s
           \<and> top_level_markers s =
               [\<lparr> tm_name = ''Pass1'', tm_event_id = eventId root, child_count = 2 \<rparr>]
           \<and> markers (statistics s) = 1
           \<and> draw_calls (statistics s) = 2"
proof -
  let ?kids = "flatten_actions (children root)"
  have flat: "flatten_actions [root] = root # ?kids"
    by (simp add: flatten_action_eq)
  have root_marker: "flags root AND (PushMarker rd OR SetMarker rd) \<noteq> 0"
    using assms(2) by (rule push_or_set)
  have draws: "filter (\<lambda>a. flags a AND Drawcall rd \<noteq> 0) ?kids = ?kids"
    using assms(5) by (rule filter_all)
  have no_markers: "filter (\<lambda>a. flags a AND (PushMarker rd OR SetMarker rd) \<noteq> 0) ?kids = []"
    using assms(6) by (rule filter_none)
  have "top_markers rd [root] =
      [\<lparr> tm_name = ''Pass1'', tm_event_id = eventId root, child_count = 2 \<rparr>]"
    using assms(1,2,4) by (simp add: count_children_flatten)
  moreover have "markers (the_stats (count_actions rd [root] c)) = markers (the_stats c) + 1" for c
    unfolding count_actions_markers flat using root_marker no_markers by simp
  moreover have "draw_calls (the_stats (count_actions rd [root] c)) = draw_calls (the_stats c) + 2" for c
    unfolding count_actions_draw_calls flat using assms(3,4) draws by simp
  ultimately show ?thesis
    by (simp add: get_frame_summary_def Let_def)
qed

text \<open>The sample forest, with the engine's bits: the whole summary.\<close>

theorem summary_of_one_pass_witness:
  "name pass_1 = ''Pass1''
   \<and> flags pass_1 AND PushMarker rd_flags \<noteq> 0 \<and> flags pass_1 AND Drawcall rd_flags = 0
   \<and> length (flatten_actions (children pass_1)) = 2
   \<and> list_all (\<lambda>d. flags d AND Drawcall rd_flags \<noteq> 0) (flatten_actions (children pass_1))
   \<and> list_all (\<lambda>d. \<not> flags d AND (PushMarker rd_flags OR SetMarker rd_flags) \<noteq> 0)
        (flatten_actions (children pass_1))
   \<and> (\<exists>s. get_frame_summary rd_flags True sample_controller = Inr s
          \<and> top_level_markers s =
              [\<lparr> tm_name = ''Pass1'', tm_event_id = eventId pass_1, child_count = 2 \<rparr>]
          \<and> markers (statistics s) = 1
          \<and> draw_calls (statistics s) = 2)
   \<and> get_frame_summary rd_flags True sample_controller =
       Inr \<lparr> api = ''D3D11'', total_actions = 3,
             statistics = \<lparr> draw_calls = 2, dispatches = 0, clears = 0, copies = 0,
                            presents = 0, markers = 1 \<rparr>,
             top_level_markers = [\<lparr> tm_name = ''Pass1'', tm_event_id = 10, child_count = 2 \<rparr>],
             resource_textures = 4, resource_buffers = 7 \<rparr>"
proof -
  have h1: "name pass_1 = ''Pass1''" by (simp add: pass_1_def)
  have h2: "flags pass_1 AND PushMarker rd_flags \<noteq> 0" by code_simp
  have h3: "flags pass_1 AND Drawcall rd_flags = 0" by code_simp
  have h4: "length (flatten_actions (children pass_1)) = 2" by code_simp
  have h5: "list_all (\<lambda>d. flags d AND Drawcall rd_flags \<noteq> 0) (flatten_actions (children pass_1))"
    by code_simp
  have h6: "list_all (\<lambda>d. \<not> flags d AND (PushMarker rd_flags OR SetMarker rd_flags) \<noteq> 0)
        (flatten_actions (children pass_1))" by code_simp
  have ctl: "sample_controller\<lparr>root_actions := [pass_1]\<rparr> = sample_controller"
    by (simp add: sample_controller_def)
  from summary_of_one_pass [OF h1 h2 h3 h4 h5 h6, of sample_controller]
  have ex: "\<exists>s. get_frame_summary rd_flags True sample_controller = Inr s
          \<and> top_level_markers s =
              [\<lparr> tm_name = ''Pass1'', tm_event_id = eventId pass_1, child_count = 2 \<rparr>]
          \<and> markers (statistics s) = 1
          \<and> draw_calls (statistics s) = 2"
    unfolding ctl .
  have out: "get_frame_summary rd_flags True sample_controller =
       Inr \<lparr> api = ''D3D11'', total_actions = 3,
             statistics = \<lparr> draw_calls = 2, dispatches = 0, clears = 0, copies = 0,
                            presents = 0, markers = 1 \<rparr>,
             top_level_markers = [\<lparr> tm_name = ''Pass1'', tm_event_id = 10, child_count = 2 \<rparr>],
             resource_textures = 4, resource_buffers = 7 \<rparr>"
    by code_simp
  from h1 h2 h3 h4 h5 h6 ex out show ?thesis by (intro conjI)
qed

section \<open>The configuration with every filter unset\<close>

lemma project_eq: "project rd a = make_item rd a (map (project rd) (children a))"
  by (cases a) (simp add: make_item_def)

lemma unset_projects:
  assumes "include_children cfg" and "\<not> only_actions cfg"
    and "\<not> truthy (marker_filter cfg)" and "\<not> truthy (exclude_markers cfg)"
    and "event_id_min cfg = None" and "event_id_max cfg = None"
    and "\<not> truthy (flags_filter cfg)"
  shows "list_all (\<lambda>a. is_marker rd a \<longrightarrow> children a \<noteq> []) (flatten_actions actions) \<longrightarrow>
           serialize_actions rd cfg in_m actions = map (project rd) actions"
    and "list_all (\<lambda>a. is_marker rd a \<longrightarrow> children a \<noteq> []) (flatten_action a) \<longrightarrow>
           serialize_action rd cfg in_m a = [project rd a]"
proof (induction actions and a rule: forest_induct)
  case Nil
  show ?case by simp
next
  case (Cons a actions)
  then show ?case by simp
next
  case (Node a)
  show ?case
  proof
    assume ok: "list_all (\<lambda>a. is_marker rd a \<longrightarrow> children a \<noteq> []) (flatten_action a)"
    then have kids: "serialize_actions rd cfg in_m (children a) = map (project rd) (children a)"
      using Node by (simp add: flatten_action_eq)
    show "serialize_action rd cfg in_m a = [project rd a]"
    proof (cases "is_marker rd a")
      case True
      with ok have "children a \<noteq> []" by (simp add: flatten_action_eq)
      with True kids show ?thesis
        using marker_under_range [OF True assms(1-4), of in_m]
        by (simp add: project_eq [of rd a])
    next
      case False
      with kids show ?thesis
        using leaf_under_range [OF False assms(1,3,7), of in_m] assms(5,6)
        by (simp add: project_eq [of rd a])
    qed
  qed
qed

text \<open>
  C3, as the code has it. With every filter unset and the children included, the output
  is the projection of the forest, node for node and in the same shape, provided that
  every marker of the forest, at any depth, has at least one child. (A marker is emitted
  only with a non-empty list of filtered children, so a marker without children is
  dropped.)
\<close>

theorem unset_config_projects_forest:
  assumes "include_children cfg" and "\<not> only_actions cfg"
    and "\<not> truthy (marker_filter cfg)" and "\<not> truthy (exclude_markers cfg)"
    and "event_id_min cfg = None" and "event_id_max cfg = None"
    and "\<not> truthy (flags_filter cfg)"
    and "list_all (\<lambda>a. is_marker rd a \<longrightarrow> children a \<noteq> []) (flatten_actions actions)"
  shows "serialize_actions rd cfg in_m actions = map (project rd) actions"
  using unset_projects(1) [OF assms(1-7)] assms(8) by blast

text \<open>The scenario's forest under the default configuration: all three nodes are there.\<close>

theorem unset_config_projects_forest_witness:
  "include_children default_config \<and> \<not> only_actions default_config
   \<and> \<not> truthy (marker_filter default_config) \<and> \<not> truthy (exclude_markers default_config)
   \<and> event_id_min default_config = None \<and> event_id_max default_config = None
   \<and> \<not> truthy (flags_filter default_config)
   \<and> list_all (\<lambda>a. is_marker rd_flags a \<longrightarrow> children a \<noteq> []) (flatten_actions scenario_forest)
   \<and> serialize_actions rd_flags default_config False scenario_forest
       = map (project rd_flags) scenario_forest
   \<and> map (project rd_flags) scenario_forest =
       [Item 0 0 ''A'' [''PushMarker''] 0 0 (Some [Item 1 1 ''Draw'' [''Drawcall''] 3 1 None]),
        Item 2 2 ''Draw'' [''Drawcall''] 3 1 None]"
proof -
  have c: "include_children default_config" "\<not> only_actions default_config"
    "\<not> truthy (marker_filter default_config)" "\<not> truthy (exclude_markers default_config)"
    "event_id_min default_config = None" "event_id_max default_config = None"
    "\<not> truthy (flags_filter default_config)"
    by (simp_all add: default_config_def truthy_def)
  have ok: "list_all (\<lambda>a. is_marker rd_flags a \<longrightarrow> children a \<noteq> [])
      (flatten_actions scenario_forest)" by code_simp
  have out: "map (project rd_flags) scenario_forest =
       [Item 0 0 ''A'' [''PushMarker''] 0 0 (Some [Item 1 1 ''Draw'' [''Drawcall''] 3 1 None]),
        Item 2 2 ''Draw'' [''Drawcall''] 3 1 None]" by code_simp
  from c ok out unset_config_projects_forest [OF c ok, of False]
  show ?thesis by (intro conjI)
qed

text \<open>
  The claim as it is written fails on a forest that holds a marker without children: the
  set marker is dropped, so the output is not the projection of the forest.
\<close>

theorem unset_config_drops_childless_marker:
  "serialize_actions rd_flags default_config False [lone_label] = []
   \<and> map (project rd_flags) [lone_label] = [Item 7 7 ''Label'' [''SetMarker''] 0 0 None]
   \<and> serialize_actions rd_flags default_config False [lone_label]
       \<noteq> map (project rd_flags) [lone_label]"
  by code_simp

section \<open>Leaving the markers out\<close>

lemma splice_markers_append [simp]:
  "splice_markers (xs @ ys) = splice_markers xs @ splice_markers ys"
  by (induction xs) simp_all

lemma splice_make_item:
  "splice_item (make_item rd a cr) =
     (if is_marker rd a then splice_markers cr else [make_item rd a (splice_markers cr)])"
proof -
  have m: "item_is_marker (Item (eventId a) (actionId a) (name a) (serialize_flags rd (flags a))
      (numIndices a) (numInstances a) cs) = is_marker rd a" for cs
    using item_is_marker_make_item [of rd a] by (simp add: make_item_def item_is_marker_def)
  show ?thesis
    by (simp add: make_item_def m Let_def)
qed

lemma only_actions_splices:
  assumes "\<not> truthy (marker_filter cfg)"
  shows "serialize_actions rd (cfg\<lparr>only_actions := True\<rparr>) in_m actions =
           splice_markers (serialize_actions rd (cfg\<lparr>only_actions := False\<rparr>) in_m actions)"
    and "serialize_action rd (cfg\<lparr>only_actions := True\<rparr>) in_m a =
           splice_markers (serialize_action rd (cfg\<lparr>only_actions := False\<rparr>) in_m a)"
proof (induction actions and a rule: forest_induct)
  case Nil
  show ?case by simp
next
  case (Cons a actions)
  then show ?case by simp
next
  case (Node a)
  let ?t = "cfg\<lparr>only_actions := True\<rparr>" and ?f = "cfg\<lparr>only_actions := False\<rparr>"
  have same: "excluded rd ?t a = excluded rd cfg a" "excluded rd ?f a = excluded rd cfg a"
    "in_range rd ?t a = in_range rd cfg a" "in_range rd ?f a = in_range rd cfg a"
    "passes_flags_filter rd ?t a = passes_flags_filter rd cfg a"
    "passes_flags_filter rd ?f a = passes_flags_filter rd cfg a"
    by (simp_all add: excluded_def in_range_def passes_flags_filter_def)
  have scope: "in_matching rd ?t in_m a = in_m" "in_matching rd ?f in_m a = in_m"
    "passes_marker_filter ?t in_m" "passes_marker_filter ?f in_m"
    using assms
    by (auto simp: in_matching_def passes_marker_filter_def truthy_def split: option.splits)
  note kids = Node
  show ?case
  proof (cases "is_marker rd a")
    case True
    then have "passes_flags_filter rd cfg a" by (rule marker_passes_flags_filter)
    with True show ?thesis
      by (simp add: serialize_action_eq [of rd ?t] serialize_action_eq [of rd ?f] same scope
          kids splice_make_item)
  next
    case False
    then show ?thesis
      by (simp add: serialize_action_eq [of rd ?t] serialize_action_eq [of rd ?f] same scope
          kids splice_make_item)
  qed
qed

lemma leaf_event_ids_append:
  "leaf_event_ids (xs @ ys) = leaf_event_ids xs @ leaf_event_ids ys"
  by (simp add: leaf_event_ids_def)

lemma leaf_event_ids_Cons:
  "leaf_event_ids (it # its) = leaf_event_ids [it] @ leaf_event_ids its"
  by (simp add: leaf_event_ids_def)

lemma leaf_event_ids_Nil [simp]: "leaf_event_ids [] = []"
  by (simp add: leaf_event_ids_def)

lemma leaf_event_ids_Item:
  "leaf_event_ids [Item e a n f ni nin cs] =
     (if item_is_marker (Item e a n f ni nin cs) then [] else [e])
       @ leaf_event_ids (case cs of None \<Rightarrow> [] | Some l \<Rightarrow> l)"
  by (simp add: leaf_event_ids_def split: option.splits)

lemma item_is_marker_children:
  "item_is_marker (Item e a n f ni nin cs) = item_is_marker (Item e a n f ni nin cs')"
  by (simp add: item_is_marker_def)

lemma splice_keeps_leaves:
  "leaf_event_ids (splice_markers its) = leaf_event_ids its"
  "leaf_event_ids (splice_item it) = leaf_event_ids [it]"
proof (induction its and it rule: splice_markers_splice_item.induct)
  case 1
  show ?case by simp
next
  case (2 it its)
  then show ?case
    by (simp add: leaf_event_ids_append leaf_event_ids_Cons [of it its])
next
  case (3 e a n f ni nin cs)
  let ?sub = "case cs of None \<Rightarrow> [] | Some l \<Rightarrow> splice_markers l"
  have sub: "leaf_event_ids ?sub = leaf_event_ids (case cs of None \<Rightarrow> [] | Some l \<Rightarrow> l)"
    using 3 by (cases cs) simp_all
  have "leaf_event_ids (splice_item (Item e a n f ni nin cs)) =
      (if item_is_marker (Item e a n f ni nin cs) then [] else [e]) @ leaf_event_ids ?sub"
    using item_is_marker_children [of e a n f ni nin "Some ?sub" cs]
      item_is_marker_children [of e a n f ni nin None cs]
    by (simp add: Let_def leaf_event_ids_Item)
  then show ?case by (simp add: sub leaf_event_ids_Item)
qed

lemma event_id_make_item [simp]: "event_id (make_item rd a cr) = eventId a"
  by (simp add: make_item_def)

lemma leaf_event_ids_make_item:
  "leaf_event_ids [make_item rd a cr] =
     (if is_marker rd a then [] else [eventId a]) @ leaf_event_ids cr"
  by (simp add: leaf_event_ids_def)

lemma only_actions_more_leaves:
  "set (leaf_event_ids (serialize_actions rd (cfg\<lparr>only_actions := False\<rparr>) in_m actions))
     \<subseteq> set (leaf_event_ids (serialize_actions rd (cfg\<lparr>only_actions := True\<rparr>) in_m actions))"
  "set (leaf_event_ids (serialize_action rd (cfg\<lparr>only_actions := False\<rparr>) in_m a))
     \<subseteq> set (leaf_event_ids (serialize_action rd (cfg\<lparr>only_actions := True\<rparr>) in_m a))"
proof (induction in_m actions and in_m a rule: ser_induct)
  case (Nil in_m)
  show ?case by simp
next
  case (Cons in_m a actions)
  then show ?case by (auto simp: leaf_event_ids_append)
next
  case (Node in_m a)
  let ?t = "cfg\<lparr>only_actions := True\<rparr>" and ?f = "cfg\<lparr>only_actions := False\<rparr>"
  have same: "excluded rd ?t a = excluded rd cfg a" "excluded rd ?f a = excluded rd cfg a"
    "in_range rd ?t a = in_range rd cfg a" "in_range rd ?f a = in_range rd cfg a"
    "passes_flags_filter rd ?t a = passes_flags_filter rd cfg a"
    "passes_flags_filter rd ?f a = passes_flags_filter rd cfg a"
    "in_matching rd ?t in_m a = in_matching rd cfg in_m a"
    "in_matching rd ?f in_m a = in_matching rd cfg in_m a"
    "passes_marker_filter ?t = passes_marker_filter cfg"
    "passes_marker_filter ?f = passes_marker_filter cfg"
    by (simp_all add: excluded_def in_range_def passes_flags_filter_def in_matching_def
        passes_marker_filter_def fun_eq_iff)
  have kids: "set (leaf_event_ids (serialize_actions rd ?f (in_matching rd cfg in_m a) (children a)))
      \<subseteq> set (leaf_event_ids (serialize_actions rd ?t (in_matching rd cfg in_m a) (children a)))"
    by (rule Node)
  show ?case
  proof (cases "is_marker rd a")
    case True
    with kids show ?thesis
      by (simp add: serialize_action_eq [of rd ?t] serialize_action_eq [of rd ?f] same
          leaf_event_ids_make_item)
  next
    case False
    with kids show ?thesis
      by (auto simp: serialize_action_eq [of rd ?t] serialize_action_eq [of rd ?f] same
          leaf_event_ids_make_item)
  qed
qed

text \<open>
  Where the two modes agree. For every forest and every configuration, the leaf actions
  of the output with \<open>only_actions\<close> false are among those of the output with \<open>only_actions\<close>
  true. When no \<open>marker_filter\<close> is set, the output with \<open>only_actions\<close> true is the output
  with \<open>only_actions\<close> false with every marker node removed and its children spliced in at
  its place, and the two outputs have the same leaf actions, in the same order.
\<close>

lemma only_actions_agreement:
  "set (leaf_event_ids (serialize_actions rd (cfg\<lparr>only_actions := False\<rparr>) in_m actions))
     \<subseteq> set (leaf_event_ids (serialize_actions rd (cfg\<lparr>only_actions := True\<rparr>) in_m actions))
   \<and> (\<not> truthy (marker_filter cfg) \<longrightarrow>
        serialize_actions rd (cfg\<lparr>only_actions := True\<rparr>) in_m actions =
          splice_markers (serialize_actions rd (cfg\<lparr>only_actions := False\<rparr>) in_m actions)
        \<and> leaf_event_ids (serialize_actions rd (cfg\<lparr>only_actions := True\<rparr>) in_m actions) =
          leaf_event_ids (serialize_actions rd (cfg\<lparr>only_actions := False\<rparr>) in_m actions))"
proof (intro conjI impI)
  show "set (leaf_event_ids (serialize_actions rd (cfg\<lparr>only_actions := False\<rparr>) in_m actions))
     \<subseteq> set (leaf_event_ids (serialize_actions rd (cfg\<lparr>only_actions := True\<rparr>) in_m actions))"
    by (rule only_actions_more_leaves(1))
next
  assume unset: "\<not> truthy (marker_filter cfg)"
  then show spliced: "serialize_actions rd (cfg\<lparr>only_actions := True\<rparr>) in_m actions =
      splice_markers (serialize_actions rd (cfg\<lparr>only_actions := False\<rparr>) in_m actions)"
    by (rule only_actions_splices(1))
  show "leaf_event_ids (serialize_actions rd (cfg\<lparr>only_actions := True\<rparr>) in_m actions) =
      leaf_event_ids (serialize_actions rd (cfg\<lparr>only_actions := False\<rparr>) in_m actions)"
    unfolding spliced by (rule splice_keeps_leaves(1))
qed

text \<open>
  C1. The claim is that \<open>only_actions\<close> true gives the same set of leaf actions as
  \<open>only_actions\<close> false, for every forest and every configuration. The code breaks it
  where a push marker that matches the \<open>marker_filter\<close> lies inside a marker that does not.
  In the nested forest with \<open>marker_filter\<close> A, the marker B has a child that passes the
  filters, and the comment in the loop body says that such a marker is included; the
  code tests the scope gate on the marker B itself as well, and so, with \<open>only_actions\<close>
  false, drops B together with the matching marker A and the draw with event id 2 below
  it: the output is empty. With \<open>only_actions\<close> true the same draw is emitted.
\<close>

theorem only_actions_changes_leaf_actions:
  "serialize_actions rd_flags
       (default_config\<lparr>marker_filter := Some ''A'', only_actions := True\<rparr>) False nested_forest
     = [Item 2 2 ''Draw'' [''Drawcall''] 3 1 None]
   \<and> serialize_actions rd_flags
       (default_config\<lparr>marker_filter := Some ''A'', only_actions := False\<rparr>) False nested_forest
     = []
   \<and> leaf_event_ids (serialize_actions rd_flags
       (default_config\<lparr>marker_filter := Some ''A'', only_actions := True\<rparr>) False nested_forest)
     = [2]
   \<and> leaf_event_ids (serialize_actions rd_flags
       (default_config\<lparr>marker_filter := Some ''A'', only_actions := False\<rparr>) False nested_forest)
     = []
   \<and> set (leaf_event_ids (serialize_actions rd_flags
       (default_config\<lparr>marker_filter := Some ''A'', only_actions := True\<rparr>) False nested_forest))
     \<noteq> set (leaf_event_ids (serialize_actions rd_flags
       (default_config\<lparr>marker_filter := Some ''A'', only_actions := False\<rparr>) False nested_forest))"
  by code_simp

section \<open>Excluded markers\<close>

lemma kept_action_eq:
  "kept_action rd cfg a = (if excluded rd cfg a then [] else a # kept_actions rd cfg (children a))"
  by (cases a) simp

lemma kept_subset_flatten:
  "set (kept_actions rd cfg actions) \<subseteq> set (flatten_actions actions)"
  "set (kept_action rd cfg a) \<subseteq> set (flatten_action a)"
proof (induction actions and a rule: forest_induct)
  case Nil
  show ?case by simp
next
  case (Cons a actions)
  then show ?case by auto
next
  case (Node a)
  then show ?case by (auto simp: kept_action_eq flatten_action_eq)
qed

lemma output_ids_kept:
  "set (map event_id (all_items (serialize_actions rd cfg in_m actions)))
     \<subseteq> eventId ` set (kept_actions rd cfg actions)"
  "set (map event_id (all_items (serialize_action rd cfg in_m a)))
     \<subseteq> eventId ` set (kept_action rd cfg a)"
proof (induction in_m actions and in_m a rule: ser_induct)
  case (Nil in_m)
  show ?case by simp
next
  case (Cons in_m a actions)
  then show ?case by auto
next
  case (Node in_m a)
  have kids: "set (map event_id (all_items (serialize_actions rd cfg (in_matching rd cfg in_m a) (children a))))
      \<subseteq> eventId ` set (kept_actions rd cfg (children a))"
    by (rule Node)
  show ?case
  proof (cases "excluded rd cfg a")
    case True
    then show ?thesis by (simp add: serialize_action_eq)
  next
    case False
    with kids show ?thesis
      by (auto simp: serialize_action_eq kept_action_eq)
  qed
qed

lemma subtree_in_flatten:
  "m \<in> set (flatten_actions actions) \<longrightarrow> set (flatten_action m) \<subseteq> set (flatten_actions actions)"
  "m \<in> set (flatten_action a) \<longrightarrow> set (flatten_action m) \<subseteq> set (flatten_action a)"
proof (induction actions and a rule: forest_induct)
  case Nil
  show ?case by simp
next
  case (Cons a actions)
  then show ?case by auto
next
  case (Node a)
  then show ?case by (auto simp: flatten_action_eq [of a])
qed

lemma excluded_subtree_not_kept:
  "distinct (map eventId (flatten_actions actions)) \<longrightarrow>
     m \<in> set (flatten_actions actions) \<longrightarrow> excluded rd cfg m \<longrightarrow> d \<in> set (flatten_action m) \<longrightarrow>
     eventId d \<notin> eventId ` set (kept_actions rd cfg actions)"
  "distinct (map eventId (flatten_action a)) \<longrightarrow>
     m \<in> set (flatten_action a) \<longrightarrow> excluded rd cfg m \<longrightarrow> d \<in> set (flatten_action m) \<longrightarrow>
     eventId d \<notin> eventId ` set (kept_action rd cfg a)"
proof (induction actions and a rule: forest_induct)
  case Nil
  show ?case by simp
next
  case (Cons a actions)
  show ?case
  proof (intro impI)
    assume dist: "distinct (map eventId (flatten_actions (a # actions)))"
      and m: "m \<in> set (flatten_actions (a # actions))"
      and ex: "excluded rd cfg m" and d: "d \<in> set (flatten_action m)"
    from dist have da: "distinct (map eventId (flatten_action a))"
      and ds: "distinct (map eventId (flatten_actions actions))"
      and disj: "eventId ` set (flatten_action a) \<inter> eventId ` set (flatten_actions actions) = {}"
      by simp_all
    from m consider "m \<in> set (flatten_action a)" | "m \<in> set (flatten_actions actions)"
      by auto
    then show "eventId d \<notin> eventId ` set (kept_actions rd cfg (a # actions))"
    proof cases
      case 1
      with d subtree_in_flatten(2) [of m a] have din: "d \<in> set (flatten_action a)" by blast
      from Cons(1) da 1 ex d have "eventId d \<notin> eventId ` set (kept_action rd cfg a)" by blast
      moreover from din disj have "eventId d \<notin> eventId ` set (flatten_actions actions)" by blast
      with kept_subset_flatten(1) [of rd cfg actions]
      have "eventId d \<notin> eventId ` set (kept_actions rd cfg actions)" by blast
      ultimately show ?thesis by (simp add: image_Un)
    next
      case 2
      with d subtree_in_flatten(1) [of m actions] have din: "d \<in> set (flatten_actions actions)"
        by blast
      from Cons(2) ds 2 ex d have "eventId d \<notin> eventId ` set (kept_actions rd cfg actions)" by blast
      moreover from din disj have "eventId d \<notin> eventId ` set (flatten_action a)" by blast
      with kept_subset_flatten(2) [of rd cfg a]
      have "eventId d \<notin> eventId ` set (kept_action rd cfg a)" by blast
      ultimately show ?thesis by (simp add: image_Un)
    qed
  qed
next
  case (Node a)
  show ?case
  proof (intro impI)
    assume dist: "distinct (map eventId (flatten_action a))"
      and m: "m \<in> set (flatten_action a)"
      and ex: "excluded rd cfg m" and d: "d \<in> set (flatten_action m)"
    from dist have fresh: "eventId a \<notin> eventId ` set (flatten_actions (children a))"
      and dk: "distinct (map eventId (flatten_actions (children a)))"
      by (simp_all add: flatten_action_eq [of a])
    from m consider "m = a" | "m \<in> set (flatten_actions (children a))"
      by (auto simp: flatten_action_eq [of a])
    then show "eventId d \<notin> eventId ` set (kept_action rd cfg a)"
    proof cases
      case 1
      with ex show ?thesis by (simp add: kept_action_eq)
    next
      case 2
      with d subtree_in_flatten(1) [of m "children a"]
      have din: "d \<in> set (flatten_actions (children a))" by blast
      with fresh have "eventId d \<noteq> eventId a" by (metis imageI)
      moreover from Node dk 2 ex d
      have "eventId d \<notin> eventId ` set (kept_actions rd cfg (children a))" by blast
      ultimately show ?thesis by (auto simp: kept_action_eq)
    qed
  qed
qed

lemma item_name_make_item [simp]: "item_name (make_item rd a cr) = name a"
  by (simp add: make_item_def)

lemma excluded_by:
  assumes "exclude_markers cfg = Some exs" and "ex \<in> set exs"
    and "is_marker rd m" and "sublist ex (name m)"
  shows "excluded rd cfg m"
  using assms by (auto simp: excluded_def list_ex_iff)

lemma no_excluded_marker_names:
  assumes "exclude_markers cfg = Some exs" and "ex \<in> set exs"
  shows "list_all (\<lambda>it. \<not> (item_is_marker it \<and> sublist ex (item_name it)))
           (all_items (serialize_actions rd cfg in_m actions))"
    and "list_all (\<lambda>it. \<not> (item_is_marker it \<and> sublist ex (item_name it)))
           (all_items (serialize_action rd cfg in_m a))"
proof (induction in_m actions and in_m a rule: ser_induct)
  case (Nil in_m)
  show ?case by simp
next
  case (Cons in_m a actions)
  then show ?case by simp
next
  case (Node in_m a)
  have kids: "list_all (\<lambda>it. \<not> (item_is_marker it \<and> sublist ex (item_name it)))
      (all_items (serialize_actions rd cfg (in_matching rd cfg in_m a) (children a)))"
    by (rule Node)
  show ?case
  proof (cases "excluded rd cfg a")
    case True
    then show ?thesis by (simp add: serialize_action_eq)
  next
    case False
    with excluded_by [OF assms, of rd a] have "\<not> (is_marker rd a \<and> sublist ex (name a))"
      by blast
    with False kids show ?thesis
      by (simp add: serialize_action_eq)
  qed
qed

text \<open>
  C2, as the code has it. When \<open>exclude_markers\<close> lists a string, no marker whose name
  contains that string appears in the output, at any depth. When, moreover, the event
  ids of the forest are pairwise distinct, no node of the subtree of such a marker (the
  marker and all its descendants) appears in the output, whatever the other filters are.
  The check is made for markers only.
\<close>

theorem excluded_marker_subtree_absent:
  assumes "exclude_markers cfg = Some exs" and "ex \<in> set exs"
  shows "list_all (\<lambda>it. \<not> (item_is_marker it \<and> sublist ex (item_name it)))
           (all_items (serialize_actions rd cfg in_m actions))
       \<and> (distinct (map eventId (flatten_actions actions))
            \<and> m \<in> set (flatten_actions actions) \<and> is_marker rd m \<and> sublist ex (name m)
            \<and> d \<in> set (flatten_action m) \<longrightarrow>
          eventId d \<notin> set (map event_id (all_items (serialize_actions rd cfg in_m actions))))"
proof (intro conjI impI)
  show "list_all (\<lambda>it. \<not> (item_is_marker it \<and> sublist ex (item_name it)))
      (all_items (serialize_actions rd cfg in_m actions))"
    using assms by (rule no_excluded_marker_names(1))
next
  assume h: "distinct (map eventId (flatten_actions actions))
      \<and> m \<in> set (flatten_actions actions) \<and> is_marker rd m \<and> sublist ex (name m)
      \<and> d \<in> set (flatten_action m)"
  then have "excluded rd cfg m" using assms by (simp add: excluded_by)
  with h have "eventId d \<notin> eventId ` set (kept_actions rd cfg actions)"
    using excluded_subtree_not_kept(1) [of actions m rd cfg d] by blast
  with output_ids_kept(1) [of rd cfg in_m actions]
  show "eventId d \<notin> set (map event_id (all_items (serialize_actions rd cfg in_m actions)))"
    by blast
qed

text \<open>
  The marker FooPass and the draw below it are absent, though the draw passes every other
  filter; the root draw is emitted.
\<close>

theorem excluded_marker_subtree_absent_witness:
  "exclude_markers (default_config\<lparr>exclude_markers := Some [''Foo'']\<rparr>) = Some [''Foo'']
   \<and> ''Foo'' \<in> set [''Foo'']
   \<and> distinct (map eventId (flatten_actions foo_forest))
   \<and> foo_pass \<in> set (flatten_actions foo_forest) \<and> is_marker rd_flags foo_pass
   \<and> sublist ''Foo'' (name foo_pass) \<and> draw_1 \<in> set (flatten_action foo_pass)
   \<and> eventId draw_1 \<notin> set (map event_id (all_items (serialize_actions rd_flags
         (default_config\<lparr>exclude_markers := Some [''Foo'']\<rparr>) False foo_forest)))
   \<and> list_all (\<lambda>it. \<not> (item_is_marker it \<and> sublist ''Foo'' (item_name it)))
         (all_items (serialize_actions rd_flags
            (default_config\<lparr>exclude_markers := Some [''Foo'']\<rparr>) False foo_forest))
   \<and> serialize_actions rd_flags (default_config\<lparr>exclude_markers := Some [''Foo'']\<rparr>) False
         foo_forest = [Item 2 2 ''Draw'' [''Drawcall''] 3 1 None]"
proof -
  let ?c = "default_config\<lparr>exclude_markers := Some [''Foo'']\<rparr>"
  have h1: "exclude_markers ?c = Some [''Foo'']" by simp
  have h2: "''Foo'' \<in> set [''Foo'']" by simp
  have h3: "distinct (map eventId (flatten_actions foo_forest))" by code_simp
  have h4: "foo_pass \<in> set (flatten_actions foo_forest)" by code_simp
  have h5: "is_marker rd_flags foo_pass" by code_simp
  have h6: "sublist ''Foo'' (name foo_pass)" by code_simp
  have h7: "draw_1 \<in> set (flatten_action foo_pass)" by code_simp
  have out: "serialize_actions rd_flags ?c False foo_forest
      = [Item 2 2 ''Draw'' [''Drawcall''] 3 1 None]" by code_simp
  from excluded_marker_subtree_absent [OF h1 h2, of rd_flags False foo_forest foo_pass draw_1]
    h3 h4 h5 h6 h7
  have "list_all (\<lambda>it. \<not> (item_is_marker it \<and> sublist ''Foo'' (item_name it)))
         (all_items (serialize_actions rd_flags ?c False foo_forest))"
    and "eventId draw_1 \<notin> set (map event_id (all_items (serialize_actions rd_flags ?c False
         foo_forest)))"
    by blast+
  with h1 h2 h3 h4 h5 h6 h7 out show ?thesis by (intro conjI)
qed

text \<open>
  The claim as it is written fails for a node that is no marker: a draw whose name
  contains Foo is emitted under \<open>exclude_markers\<close> Foo.
\<close>

theorem excluded_name_on_draw_is_emitted:
  "exclude_markers (default_config\<lparr>exclude_markers := Some [''Foo'']\<rparr>) = Some [''Foo'']
   \<and> sublist ''Foo'' (name foo_draw)
   \<and> serialize_actions rd_flags (default_config\<lparr>exclude_markers := Some [''Foo'']\<rparr>) False
         [foo_draw] = [Item 5 5 ''DrawFoo'' [''Drawcall''] 3 1 None]
   \<and> list_ex (\<lambda>it. sublist ''Foo'' (item_name it))
         (all_items (serialize_actions rd_flags
            (default_config\<lparr>exclude_markers := Some [''Foo'']\<rparr>) False [foo_draw]))"
  by code_simp

end
